theory Spec2Isabelle
  imports Complex_Main "HOL-Library.AList"
begin

section \<open>Data shared by the two downloaders\<close>

text \<open>
  The repository holds two copies of the downloader: \<^verbatim>\<open>imagedownloader/downloader.py\<close>
  (with thumbnails, results keyed by URL) and \<^verbatim>\<open>imgdl/downloader.py\<close> (no thumbnails,
  results aligned by index). \<^verbatim>\<open>convert_image\<close>, \<^verbatim>\<open>_persist_file\<close>,
  \<^verbatim>\<open>file_path\<close> and \<^verbatim>\<open>get_proxy\<close> are the same text in both and are
  modelled once. A byte string is a \<^typ>\<open>string\<close> (a \<^typ>\<open>char\<close> is one byte); a URL
  is held as the byte string of its UTF-8 encoding; a path is the list of its segments.
\<close>

type_synonym bytes = string
type_synonym url = string
type_synonym path = "string list"
type_synonym proxy_record = "(string \<times> string) list"
type_synonym box = "nat \<times> nat"

datatype error =
    FetchError | DecodeError | EncodeError | PersistError
  | FileNotFoundError | IndexError | TypeError | ValueError | AssertionError | Exception

section \<open>The imaging library, as the source calls it\<close>

text \<open>
  An image object carries the three attributes the source reads (\<^verbatim>\<open>format\<close>,
  \<^verbatim>\<open>mode\<close>, \<^verbatim>\<open>size\<close>) and its pixel content, kept as the nest of library calls
  that produced it. Objects live in a store (a list, an object's reference is its index):
  \<^verbatim>\<open>Image.new\<close>, \<^verbatim>\<open>convert\<close> and \<^verbatim>\<open>copy\<close> allocate,
  \<^verbatim>\<open>paste\<close> and \<^verbatim>\<open>thumbnail\<close> change an object in place.
\<close>

datatype pixels =
    Decoded bytes
  | Fill "nat \<times> nat \<times> nat"
  | Paste pixels pixels pixels
  | Convert string pixels
  | Resample box pixels

record image =
  img_format :: "string option"
  img_mode :: string
  img_size :: box
  img_pixels :: pixels

type_synonym heap = "image list"

definition alloc :: "heap \<Rightarrow> image \<Rightarrow> heap \<times> nat" where
  "alloc h im = (h @ [im], length h)"

definition Image_new :: "heap \<Rightarrow> string \<Rightarrow> box \<Rightarrow> nat \<times> nat \<times> nat \<Rightarrow> heap \<times> nat" where
  "Image_new h m sz colour =
     alloc h \<lparr>img_format = None, img_mode = m, img_size = sz, img_pixels = Fill colour\<rparr>"

text \<open>\<^verbatim>\<open>dst.paste(src, mask)\<close>: writes into \<^verbatim>\<open>dst\<close>, returns nothing.\<close>

definition paste :: "heap \<Rightarrow> nat \<Rightarrow> nat \<Rightarrow> nat \<Rightarrow> heap" where
  "paste h dst src msk =
     h[dst := (h ! dst)\<lparr>img_pixels :=
         Paste (img_pixels (h ! dst)) (img_pixels (h ! src)) (img_pixels (h ! msk))\<rparr>]"

definition convert :: "heap \<Rightarrow> nat \<Rightarrow> string \<Rightarrow> heap \<times> nat" where
  "convert h r m =
     alloc h \<lparr>img_format = None, img_mode = m, img_size = img_size (h ! r),
              img_pixels = Convert m (img_pixels (h ! r))\<rparr>"

definition copy :: "heap \<Rightarrow> nat \<Rightarrow> heap \<times> nat" where
  "copy h r = alloc h (h ! r)"

text \<open>
  Modelled from the spec: \<^verbatim>\<open>Image.thumbnail\<close> belongs to the imaging library and is
  not under src/. The spec (4.2, step 3) has it shrink the image to fit within the
  bounding box, preserving the aspect ratio, and never enlarge an image that already
  fits. The dimension that binds takes the box's value, the other one is scaled by the
  same factor and rounded down.
\<close>

fun shrink_to_fit :: "box \<Rightarrow> box \<Rightarrow> box" where
  "shrink_to_fit (sw, sh) (w, h) =
     (if sw \<le> w \<and> sh \<le> h then (sw, sh)
      else if w * sh \<le> h * sw then (w, (sh * w) div sw)
      else ((sw * h) div sh, h))"

definition resized :: "image \<Rightarrow> box \<Rightarrow> image" where
  "resized im bx =
     (let sz = shrink_to_fit (img_size im) bx
      in if sz = img_size im then im
         else im\<lparr>img_size := sz, img_pixels := Resample sz (img_pixels im)\<rparr>)"

text \<open>\<^verbatim>\<open>img.thumbnail(size, filter)\<close>: resizes \<^verbatim>\<open>img\<close> itself, returns nothing.\<close>

definition thumbnail :: "heap \<Rightarrow> nat \<Rightarrow> box \<Rightarrow> heap" where
  "thumbnail h r bx = h[r := resized (h ! r) bx]"

text \<open>
  The library functions whose results the source only passes on: the SHA-1 digest, the
  decoder behind \<^verbatim>\<open>Image.open\<close> (\<open>None\<close>: the payload is no image) and the encoder
  behind \<^verbatim>\<open>img.save(buf, fmt)\<close> (\<open>None\<close>: the encoder raises).
\<close>

record library =
  sha1 :: "bytes \<Rightarrow> bytes"
  image_open :: "bytes \<Rightarrow> image option"
  image_save :: "image \<Rightarrow> string \<Rightarrow> bytes option"

section \<open>convert_image\<close>

text \<open>
  The source's function in its two parts: the \<^verbatim>\<open>if/elif\<close> chain on format and mode,
  then the block under \<^verbatim>\<open>if size:\<close> (a size tuple is truthy, \<^verbatim>\<open>None\<close> is not),
  then the save into the buffer.
\<close>

definition colour_step :: "heap \<Rightarrow> nat \<Rightarrow> heap \<times> nat" where
  "colour_step h img =
     (if img_format (h ! img) = Some ''PNG'' \<and> img_mode (h ! img) = ''RGBA'' then
        (let (ha, background) = Image_new h ''RGBA'' (img_size (h ! img)) (255, 255, 255);
             hb = paste ha background img img
         in convert hb background ''RGB'')
      else if img_mode (h ! img) = ''P'' then
        (let (ha, img') = convert h img ''RGBA'';
             (hb, background) = Image_new ha ''RGBA'' (img_size (ha ! img')) (255, 255, 255);
             hc = paste hb background img' img'
         in convert hc background ''RGB'')
      else if img_mode (h ! img) \<noteq> ''RGB'' then convert h img ''RGB''
      else (h, img))"

definition size_step :: "heap \<Rightarrow> nat \<Rightarrow> box option \<Rightarrow> heap \<times> nat" where
  "size_step h img sz =
     (case sz of
        None \<Rightarrow> (h, img)
      | Some bx \<Rightarrow> (let (hc, c) = copy h img in (thumbnail hc c bx, c)))"

definition convert_image ::
  "library \<Rightarrow> heap \<Rightarrow> nat \<Rightarrow> box option \<Rightarrow> heap \<times> (error + nat \<times> bytes)" where
  "convert_image L h img sz =
    (let (h1, img1) = colour_step h img;
         (h2, img2) = size_step h1 img1 sz
     in case image_save L (h2 ! img2) ''JPEG'' of
          None \<Rightarrow> (h2, Inl EncodeError)
        | Some buf \<Rightarrow> (h2, Inr (img2, buf)))"

text \<open>
  The spec's wording of the colour step (4.2, step 2), as a function on one image value,
  to compare \<open>convert_image\<close> with.
\<close>

definition white_background :: "pixels" where
  "white_background = Fill (255, 255, 255)"

definition composite_on_white :: "pixels \<Rightarrow> pixels" where
  "composite_on_white px = Convert ''RGB'' (Paste white_background px px)"

definition canonical_colour :: "image \<Rightarrow> image" where
  "canonical_colour im =
     (if img_format im = Some ''PNG'' \<and> img_mode im = ''RGBA'' then
        \<lparr>img_format = None, img_mode = ''RGB'', img_size = img_size im,
         img_pixels = composite_on_white (img_pixels im)\<rparr>
      else if img_mode im = ''P'' then
        \<lparr>img_format = None, img_mode = ''RGB'', img_size = img_size im,
         img_pixels = composite_on_white (Convert ''RGBA'' (img_pixels im))\<rparr>
      else if img_mode im \<noteq> ''RGB'' then
        \<lparr>img_format = None, img_mode = ''RGB'', img_size = img_size im,
         img_pixels = Convert ''RGB'' (img_pixels im)\<rparr>
      else im)"

section \<open>Configuration\<close>

text \<open>
  The values the constructors accept for \<^verbatim>\<open>proxies\<close> and \<^verbatim>\<open>thumbs_size\<close>
  (Python checks their types at run time), and the shape \<^verbatim>\<open>self.proxies\<close> has
  afterwards. A dict literal is an association list in insertion order.
\<close>

datatype proxies_arg = P_None | P_Str string | P_List "string list" | P_Dict proxy_record

datatype proxies_attr = No_Proxy | Proxy_Dict proxy_record | Proxy_List "proxy_record list"

datatype thumbs_arg = T_None | T_Dict "(string \<times> box) list" | T_List "nat list" | T_Other

record downloader =
  store_path :: path
  n_workers :: nat
  timeout :: real
  min_wait :: real
  max_wait :: real
  proxies :: proxies_attr
  headers :: "(string \<times> string) list"
  thumbs_size :: "(string \<times> box) list"
  notebook :: bool
  debug :: bool

definition format_as_dict :: "string \<Rightarrow> proxy_record" where
  "format_as_dict proxy = [(''http'', proxy), (''https'', proxy)]"

text \<open>\<^verbatim>\<open>str(n)\<close> for a non-negative integer.\<close>

function str_nat :: "nat \<Rightarrow> string" where
  "str_nat n =
     (if n < 10 then [''0123456789'' ! n]
      else str_nat (n div 10) @ [''0123456789'' ! (n mod 10)])"
  by pat_completeness auto
termination
  by (relation "measure id") auto

text \<open>
  \<^verbatim>\<open>imagedownloader.ImageDownloader.__init__\<close>. The second test of the proxy chain
  reads \<^verbatim>\<open>isinstance(thumbs_size, list)\<close>, as the source has it; iterating
  \<^verbatim>\<open>None\<close> there is a TypeError. \<^verbatim>\<open>_makedirs\<close> (directory creation) is left
  out: paths are keys of the file map.
\<close>

definition resolve_thumbs :: "bool \<Rightarrow> thumbs_arg \<Rightarrow> error + (string \<times> box) list" where
  "resolve_thumbs thumbs ts =
     (let ts' = (case ts of T_None \<Rightarrow> T_Dict [] | T_Dict [] \<Rightarrow> T_Dict []
                  | T_List [] \<Rightarrow> T_Dict [] | other \<Rightarrow> other)
      in if thumbs then
           (case ts' of
              T_Dict d \<Rightarrow> Inr d
            | T_List l \<Rightarrow> Inr (foldl (\<lambda>d thumb. AList.update (str_nat thumb) (thumb, thumb) d) [] l)
            | _ \<Rightarrow> Inl Exception)
         else Inr [])"

definition init ::
  "path \<Rightarrow> nat \<Rightarrow> bool \<Rightarrow> thumbs_arg \<Rightarrow> real \<Rightarrow> real \<Rightarrow> real \<Rightarrow> proxies_arg \<Rightarrow>
   (string \<times> string) list \<Rightarrow> string option \<Rightarrow> bool \<Rightarrow> error + downloader" where
  "init store n thumbs ts tmo lo hi px hdrs user_agent nb =
     (let hdrs' = (case user_agent of None \<Rightarrow> hdrs
                   | Some ua \<Rightarrow> AList.update ''User-Agent'' ua hdrs)
      in case px of
           P_Str _ \<Rightarrow> Inl AssertionError
         | _ \<Rightarrow>
          (case (case px of
                   P_Dict p \<Rightarrow> Inr (Proxy_Dict p)
                 | _ \<Rightarrow> (case ts of
                           T_List _ \<Rightarrow>
                             (case px of
                                P_List ps \<Rightarrow> Inr (Proxy_List (map format_as_dict ps))
                              | _ \<Rightarrow> Inl TypeError)
                         | _ \<Rightarrow> Inr No_Proxy)) of
             Inl e \<Rightarrow> Inl e
           | Inr pa \<Rightarrow>
              (case resolve_thumbs thumbs ts of
                 Inl e \<Rightarrow> Inl e
               | Inr tsz \<Rightarrow>
                   Inr \<lparr>store_path = store, n_workers = n, timeout = tmo, min_wait = lo,
                        max_wait = hi, proxies = pa, headers = hdrs', thumbs_size = tsz,
                        notebook = nb, debug = False\<rparr>)))"

text \<open>
  \<^verbatim>\<open>imgdl.ImageDownloader\<close>: the attribute validators. \<^verbatim>\<open>user_agent\<close> has passed
  the \<^verbatim>\<open>str\<close> converter, so it is never \<^verbatim>\<open>None\<close> in \<^verbatim>\<open>update_headers\<close>. This
  class has no thumbnails: its \<open>thumbs_size\<close> is empty.
\<close>

definition resolve_proxies :: "proxies_arg \<Rightarrow> error + proxies_attr" where
  "resolve_proxies v =
     (case v of
        P_Str s \<Rightarrow> Inr (Proxy_List [format_as_dict s])
      | P_List ps \<Rightarrow> (if length ps > 0 then Inr (Proxy_List (map format_as_dict ps))
                      else Inl ValueError)
      | P_None \<Rightarrow> Inr No_Proxy
      | P_Dict _ \<Rightarrow> Inl ValueError)"

definition imgdl_init ::
  "path \<Rightarrow> nat \<Rightarrow> real \<Rightarrow> real \<Rightarrow> real \<Rightarrow> proxies_arg \<Rightarrow> (string \<times> string) list \<Rightarrow>
   string \<Rightarrow> bool \<Rightarrow> bool \<Rightarrow> error + downloader" where
  "imgdl_init store n tmo lo hi px hdrs user_agent nb dbg =
     (case resolve_proxies px of
        Inl e \<Rightarrow> Inl e
      | Inr pa \<Rightarrow>
          Inr \<lparr>store_path = store, n_workers = n, timeout = tmo, min_wait = lo,
               max_wait = hi, proxies = pa,
               headers = AList.update ''User-Agent'' user_agent hdrs, thumbs_size = [],
               notebook = nb, debug = dbg\<rparr>)"

section \<open>What one task meets outside the program\<close>

text \<open>
  The HTTP transport, the disk and the random generator, as one task sees them:
  \<open>http_get\<close> is \<^verbatim>\<open>requests.get(...).content\<close> (\<open>None\<close>: the transport raises),
  \<open>disk\<close> says how \<^verbatim>\<open>open('wb')\<close> and \<^verbatim>\<open>write\<close> end on a path (the open refused,
  which leaves the file alone; or the write cut after some bytes, the file already
  truncated by the open), \<open>choice_draw\<close> and \<open>unit_draw\<close> are the draws behind
  \<^verbatim>\<open>random.choice\<close> and \<^verbatim>\<open>random.uniform\<close>.
\<close>

datatype write_outcome = Written | Open_Denied | Write_Cut nat

record chance =
  http_get :: "url \<Rightarrow> proxy_record option \<Rightarrow> bytes option"
  disk :: "path \<Rightarrow> write_outcome"
  choice_draw :: nat
  unit_draw :: real

datatype event = Get url "proxy_record option" | Write path bytes | Sleep real

record world =
  files :: "path \<rightharpoonup> bytes"
  events :: "event list"

definition emit :: "event \<Rightarrow> world \<Rightarrow> world" where
  "emit ev w = w\<lparr>events := events w @ [ev]\<rparr>"

definition uniform :: "chance \<Rightarrow> real \<Rightarrow> real \<Rightarrow> real" where
  "uniform ch a b = a + (b - a) * unit_draw ch"

definition get_proxy :: "chance \<Rightarrow> downloader \<Rightarrow> error + proxy_record option" where
  "get_proxy ch d =
     (case proxies d of
        Proxy_List ps \<Rightarrow>
          (if ps = [] then Inl IndexError
           else Inr (Some (ps ! (choice_draw ch mod length ps))))
      | Proxy_Dict p \<Rightarrow> Inr (Some p)
      | No_Proxy \<Rightarrow> Inr None)"

section \<open>Paths\<close>

text \<open>
  Modelled from the spec: \<^verbatim>\<open>to_bytes\<close> (utils.py is not under src/) gives the UTF-8
  bytes of the URL (4.1). A URL is held here as those bytes, so it is the identity.
\<close>

definition to_bytes :: "url \<Rightarrow> bytes" where
  "to_bytes u = u"

definition hex_digit :: "nat \<Rightarrow> char" where
  "hex_digit n = ''0123456789abcdef'' ! n"

definition hexdigest :: "bytes \<Rightarrow> string" where
  "hexdigest bs =
     concat (map (\<lambda>c. [hex_digit (of_char c div 16), hex_digit (of_char c mod 16)]) bs)"

definition file_path :: "library \<Rightarrow> downloader \<Rightarrow> url \<Rightarrow> path" where
  "file_path L d u =
     (let image_guid = hexdigest (sha1 L (to_bytes u))
      in store_path d @ [image_guid @ ''.jpg''])"

definition thumb_path :: "library \<Rightarrow> downloader \<Rightarrow> url \<Rightarrow> string \<Rightarrow> path" where
  "thumb_path L d u thumb_id =
     (let thumb_guid = hexdigest (sha1 L (to_bytes u))
      in store_path d @ [''thumbs'', thumb_id, thumb_guid @ ''.jpg''])"

section \<open>One URL\<close>

definition persist_file :: "chance \<Rightarrow> world \<Rightarrow> path \<Rightarrow> bytes \<Rightarrow> world \<times> (error + unit)" where
  "persist_file ch w p buf =
     (case disk ch p of
        Written \<Rightarrow> (emit (Write p buf) (w\<lparr>files := (files w)(p \<mapsto> buf)\<rparr>), Inr ())
      | Open_Denied \<Rightarrow> (w, Inl PersistError)
      | Write_Cut n \<Rightarrow>
          (emit (Write p (take n buf)) (w\<lparr>files := (files w)(p \<mapsto> take n buf)\<rparr>),
           Inl PersistError))"

text \<open>
  The body of the branch \<^verbatim>\<open>if not path.exists() or force\<close>, from the GET to the
  sleep, with the proxy already chosen. An exception leaves at the step that raises.
\<close>

definition fetch_original ::
  "library \<Rightarrow> chance \<Rightarrow> downloader \<Rightarrow> world \<Rightarrow> url \<Rightarrow> path \<Rightarrow> proxy_record option \<Rightarrow>
   world \<times> (error + heap \<times> nat)" where
  "fetch_original L ch d w u p proxy =
     (let w1 = emit (Get u proxy) w
      in case http_get ch u proxy of
           None \<Rightarrow> (w1, Inl FetchError)
         | Some content \<Rightarrow>
            (case image_open L content of
               None \<Rightarrow> (w1, Inl DecodeError)
             | Some im \<Rightarrow>
                (let (h, orig_img) = alloc [] im
                 in case convert_image L h orig_img None of
                      (h1, Inl e) \<Rightarrow> (w1, Inl e)
                    | (h1, Inr (img, buf)) \<Rightarrow>
                       (case persist_file ch w1 p buf of
                          (w2, Inl e) \<Rightarrow> (w2, Inl e)
                        | (w2, Inr _) \<Rightarrow>
                            (emit (Sleep (uniform ch (min_wait d) (max_wait d))) w2,
                             Inr (h1, orig_img))))))"

text \<open>
  One pass of the thumbnail loop of \<^verbatim>\<open>imagedownloader.download_image\<close>.
  \<open>orig\<close> is \<^verbatim>\<open>orig_img\<close> (\<open>None\<close> until an image is at hand); an image object is
  always truthy, so \<^verbatim>\<open>orig_img or Image.open(str(path))\<close> opens the stored file
  only when it is \<open>None\<close>.
\<close>

definition thumb_step ::
  "library \<Rightarrow> chance \<Rightarrow> downloader \<Rightarrow> url \<Rightarrow> bool \<Rightarrow> path \<Rightarrow> string \<times> box \<Rightarrow>
   world \<Rightarrow> heap \<Rightarrow> nat option \<Rightarrow> world \<times> (error + heap \<times> nat option)" where
  "thumb_step L ch d u force p spec w h orig =
     (let tp = thumb_path L d u (fst spec)
      in if files w tp = None \<or> force then
           (case (case orig of
                    Some r \<Rightarrow> Inr (h, r)
                  | None \<Rightarrow>
                     (case files w p of
                        None \<Rightarrow> Inl FileNotFoundError
                      | Some content \<Rightarrow>
                         (case image_open L content of
                            None \<Rightarrow> Inl DecodeError
                          | Some im \<Rightarrow> Inr (alloc h im)))) of
              Inl e \<Rightarrow> (w, Inl e)
            | Inr (h1, r) \<Rightarrow>
               (case convert_image L h1 r (Some (snd spec)) of
                  (h2, Inl e) \<Rightarrow> (w, Inl e)
                | (h2, Inr (thumb_image, thumb_buf)) \<Rightarrow>
                   (case persist_file ch w tp thumb_buf of
                      (w1, Inl e) \<Rightarrow> (w1, Inl e)
                    | (w1, Inr _) \<Rightarrow> (w1, Inr (h2, Some r)))))
         else (w, Inr (h, orig)))"

fun thumbs_loop ::
  "library \<Rightarrow> chance \<Rightarrow> downloader \<Rightarrow> url \<Rightarrow> bool \<Rightarrow> path \<Rightarrow> (string \<times> box) list \<Rightarrow>
   world \<Rightarrow> heap \<Rightarrow> nat option \<Rightarrow> world \<times> (error + heap \<times> nat option)" where
  "thumbs_loop L ch d u force p [] w h orig = (w, Inr (h, orig))"
| "thumbs_loop L ch d u force p (spec # rest) w h orig =
     (case thumb_step L ch d u force p spec w h orig of
        (w1, Inl e) \<Rightarrow> (w1, Inl e)
      | (w1, Inr (h1, orig1)) \<Rightarrow> thumbs_loop L ch d u force p rest w1 h1 orig1)"

text \<open>\<^verbatim>\<open>imagedownloader.ImageDownloader.download_image\<close>.\<close>

definition original_step ::
  "library \<Rightarrow> chance \<Rightarrow> downloader \<Rightarrow> world \<Rightarrow> url \<Rightarrow> bool \<Rightarrow>
   world \<times> (error + heap \<times> nat option)" where
  "original_step L ch d w u force =
     (let p = file_path L d u
      in if files w p = None \<or> force then
           (case get_proxy ch d of
              Inl e \<Rightarrow> (w, Inl e)
            | Inr proxy \<Rightarrow>
               (case fetch_original L ch d w u p proxy of
                  (w1, Inl e) \<Rightarrow> (w1, Inl e)
                | (w1, Inr (h, orig_img)) \<Rightarrow> (w1, Inr (h, Some orig_img))))
         else (w, Inr ([], None)))"

definition download_image ::
  "library \<Rightarrow> chance \<Rightarrow> downloader \<Rightarrow> world \<Rightarrow> url \<Rightarrow> bool \<Rightarrow> world \<times> (error + path)" where
  "download_image L ch d w u force =
     (let p = file_path L d u
      in case original_step L ch d w u force of
           (w1, Inl e) \<Rightarrow> (w1, Inl e)
         | (w1, Inr (h, orig_img)) \<Rightarrow>
            (case thumbs_loop L ch d u force p (thumbs_size d) w1 h orig_img of
               (w2, Inl e) \<Rightarrow> (w2, Inl e)
             | (w2, Inr _) \<Rightarrow> (w2, Inr p)))"

text \<open>
  \<^verbatim>\<open>imgdl.ImageDownloader._download_image\<close>, called without a session: the proxy is
  chosen for the new session before the path is looked at.
\<close>

definition imgdl_download_image ::
  "library \<Rightarrow> chance \<Rightarrow> downloader \<Rightarrow> world \<Rightarrow> url \<Rightarrow> bool \<Rightarrow> world \<times> (error + path)" where
  "imgdl_download_image L ch d w u force =
     (case get_proxy ch d of
        Inl e \<Rightarrow> (w, Inl e)
      | Inr proxy \<Rightarrow>
         (let p = file_path L d u
          in if files w p = None \<or> force then
               (case fetch_original L ch d w u p proxy of
                  (w1, Inl e) \<Rightarrow> (w1, Inl e)
                | (w1, Inr _) \<Rightarrow> (w1, Inr p))
             else (w, Inr p)))"

section \<open>The call operator\<close>

text \<open>
  The pool is modelled at the grain of whole tasks: the tasks run one after the other
  in the order \<open>order\<close> (a list of positions of \<open>urls\<close>), task \<open>i\<close> meeting the
  outside world \<open>chs i\<close>, and \<^verbatim>\<open>as_completed\<close> hands the futures back in that order.
  A future holds what its task returned or raised. The argument is a \<^verbatim>\<open>str\<close> or a
  list of them. \<open>imgdl\<close> returns \<^verbatim>\<open>str(path)\<close> where \<open>imagedownloader\<close> returns
  the path object; both are the path here.
\<close>

datatype urls_arg = Url url | Urls "url list"

datatype returned = One path | Keyed "url \<rightharpoonup> path option" | Aligned "path option list"

type_synonym task = "chance \<Rightarrow> world \<Rightarrow> url \<Rightarrow> bool \<Rightarrow> world \<times> (error + path)"

fun run_tasks ::
  "task \<Rightarrow> (nat \<Rightarrow> chance) \<Rightarrow> url list \<Rightarrow> bool \<Rightarrow> nat list \<Rightarrow> world \<Rightarrow>
   world \<times> (nat \<times> (error + path)) list" where
  "run_tasks t chs urls force [] w = (w, [])"
| "run_tasks t chs urls force (i # rest) w =
     (let (w1, out) = t (chs i) w (urls ! i) force;
          (w2, outs) = run_tasks t chs urls force rest w1
      in (w2, (i, out) # outs))"

definition absence :: "error + path \<Rightarrow> path option" where
  "absence out = (case out of Inl e \<Rightarrow> None | Inr p \<Rightarrow> Some p)"

text \<open>\<^verbatim>\<open>imagedownloader.ImageDownloader.__call__\<close>: a dict keyed by URL.\<close>

definition keyed_result ::
  "url list \<Rightarrow> (url \<rightharpoonup> path option) \<Rightarrow> nat \<times> (error + path) \<Rightarrow> (url \<rightharpoonup> path option)" where
  "keyed_result urls paths future =
     (case snd future of
        Inl e \<Rightarrow> paths(urls ! fst future \<mapsto> None)
      | Inr p \<Rightarrow> paths(urls ! fst future \<mapsto> Some p))"

definition collect_keyed ::
  "url list \<Rightarrow> (nat \<times> (error + path)) list \<Rightarrow> (url \<rightharpoonup> path option)" where
  "collect_keyed urls futures = foldl (keyed_result urls) Map.empty futures"

definition call ::
  "library \<Rightarrow> (nat \<Rightarrow> chance) \<Rightarrow> nat list \<Rightarrow> downloader \<Rightarrow> world \<Rightarrow> urls_arg \<Rightarrow> bool \<Rightarrow>
   world \<times> (error + returned)" where
  "call L chs order d w arg force =
     (case arg of
        Url u \<Rightarrow>
          (case download_image L (chs 0) d w u force of
             (w1, Inl e) \<Rightarrow> (w1, Inl e)
           | (w1, Inr p) \<Rightarrow> (w1, Inr (One p)))
      | Urls urls \<Rightarrow>
          (let (w1, futures) = run_tasks (\<lambda>ch. download_image L ch d) chs urls force order w
           in (w1, Inr (Keyed (collect_keyed urls futures)))))"

text \<open>
  \<^verbatim>\<open>imgdl.ImageDownloader.__call__\<close>: a list aligned with the input, \<^verbatim>\<open>None\<close>
  where the task raised. (The failure count it logs is not part of the result.)
\<close>

definition aligned_result ::
  "path option list \<Rightarrow> nat \<times> (error + path) \<Rightarrow> path option list" where
  "aligned_result paths future =
     (case snd future of
        Inr p \<Rightarrow> paths[fst future := Some p]
      | Inl e \<Rightarrow> paths)"

definition collect_aligned ::
  "nat \<Rightarrow> (nat \<times> (error + path)) list \<Rightarrow> path option list" where
  "collect_aligned n futures = foldl aligned_result (replicate n None) futures"

definition imgdl_call ::
  "library \<Rightarrow> (nat \<Rightarrow> chance) \<Rightarrow> nat list \<Rightarrow> downloader \<Rightarrow> world \<Rightarrow> urls_arg \<Rightarrow> bool \<Rightarrow>
   world \<times> (error + returned)" where
  "imgdl_call L chs order d w arg force =
     (case arg of
        Url u \<Rightarrow>
          (case imgdl_download_image L (chs 0) d w u force of
             (w1, Inl e) \<Rightarrow> (w1, Inl e)
           | (w1, Inr p) \<Rightarrow> (w1, Inr (One p)))
      | Urls urls \<Rightarrow>
          (let (w1, futures) =
                 run_tasks (\<lambda>ch. imgdl_download_image L ch d) chs urls force order w;
               n = length futures
           in (w1, Inr (Aligned (collect_aligned n futures)))))"

text \<open>
  What the spec expects \<open>convert_image\<close> to hand to the encoder: the canonical colour,
  then the shrink when a size is given. \<open>aspect_kept\<close> is "the aspect ratio matches the
  source within rounding": one dimension is the other one scaled by the source's ratio
  and rounded down.
\<close>

definition canonical_output :: "image \<Rightarrow> box option \<Rightarrow> image" where
  "canonical_output im sz =
     (case sz of None \<Rightarrow> canonical_colour im
      | Some bx \<Rightarrow> resized (canonical_colour im) bx)"

fun aspect_kept :: "box \<Rightarrow> box \<Rightarrow> bool" where
  "aspect_kept (sw, sh) (tw, th) =
     ((th * sw \<le> sh * tw \<and> sh * tw < (th + 1) * sw) \<or>
      (tw * sh \<le> sw * th \<and> sw * th < (tw + 1) * sh))"

section \<open>Concrete values for the examples\<close>

text \<open>
  A small outside world to run the model on: a stand-in digest (the identity), a decoder
  that knows two payloads, and an encoder that refuses only the empty image and names
  the format and mode it was given.
\<close>

definition demo_library :: library where
  "demo_library =
     \<lparr>sha1 = (\<lambda>bs. bs),
      image_open = (\<lambda>bs.
        if bs = ''rgba.png'' then
          Some \<lparr>img_format = Some ''PNG'', img_mode = ''RGBA'', img_size = (500, 300),
                img_pixels = Decoded bs\<rparr>
        else if bs = ''photo.jpg'' then
          Some \<lparr>img_format = Some ''JPEG'', img_mode = ''RGB'', img_size = (80, 60),
                img_pixels = Decoded bs\<rparr>
        else None),
      image_save = (\<lambda>im fmt. if img_size im = (0, 0) then None else Some (fmt @ '':'' @ img_mode im))\<rparr>"

definition demo_png :: image where
  "demo_png = \<lparr>img_format = Some ''PNG'', img_mode = ''RGBA'', img_size = (500, 300),
                img_pixels = Decoded ''rgba.png''\<rparr>"

definition demo_downloader :: downloader where
  "demo_downloader =
     \<lparr>store_path = [''imgs''], n_workers = 2, timeout = 5, min_wait = 1, max_wait = 3,
      proxies = No_Proxy, headers = [], thumbs_size = [], notebook = False, debug = False\<rparr>"

section \<open>What a run shows\<close>

text \<open>
  The part of the fetch branch that happens in memory: the GET, the decoder, the colour
  step and the encoder, as one result. And what can be read off the event list.
\<close>

definition encoded :: "library \<Rightarrow> chance \<Rightarrow> url \<Rightarrow> proxy_record option \<Rightarrow> error + bytes" where
  "encoded L ch u proxy =
     (case http_get ch u proxy of
        None \<Rightarrow> Inl FetchError
      | Some content \<Rightarrow>
         (case image_open L content of
            None \<Rightarrow> Inl DecodeError
          | Some im \<Rightarrow>
             (case image_save L (canonical_colour im) ''JPEG'' of
                None \<Rightarrow> Inl EncodeError
              | Some buf \<Rightarrow> Inr buf)))"

fun fetches :: "event list \<Rightarrow> (url \<times> proxy_record option) list" where
  "fetches [] = []"
| "fetches (Get u proxy # evs) = (u, proxy) # fetches evs"
| "fetches (_ # evs) = fetches evs"

fun sleeps :: "event list \<Rightarrow> real list" where
  "sleeps [] = []"
| "sleeps (Sleep t # evs) = t # sleeps evs"
| "sleeps (_ # evs) = sleeps evs"

fun writes_to :: "path \<Rightarrow> event list \<Rightarrow> bytes list" where
  "writes_to p [] = []"
| "writes_to p (Write q b # evs) = (if q = p then b # writes_to p evs else writes_to p evs)"
| "writes_to p (_ # evs) = writes_to p evs"

text \<open>
  The effect of the original-image step on the world, and the error it leaves with if
  any, once the proxy is chosen.
\<close>

definition original_effect ::
  "library \<Rightarrow> chance \<Rightarrow> downloader \<Rightarrow> world \<Rightarrow> url \<Rightarrow> bool \<Rightarrow> proxy_record option \<Rightarrow>
   world \<times> error option" where
  "original_effect L ch d w u force proxy =
     (let p = file_path L d u
      in if files w p = None \<or> force then
           (case encoded L ch u proxy of
              Inl e \<Rightarrow> (emit (Get u proxy) w, Some e)
            | Inr buf \<Rightarrow>
               (case disk ch p of
                  Written \<Rightarrow>
                    (w\<lparr>files := (files w)(p \<mapsto> buf),
                       events := events w @ [Get u proxy, Write p buf,
                                            Sleep (uniform ch (min_wait d) (max_wait d))]\<rparr>,
                     None)
                | Open_Denied \<Rightarrow> (emit (Get u proxy) w, Some PersistError)
                | Write_Cut n \<Rightarrow>
                    (w\<lparr>files := (files w)(p \<mapsto> take n buf),
                       events := events w @ [Get u proxy, Write p (take n buf)]\<rparr>,
                     Some PersistError)))
         else (w, None))"

text \<open>
  The outside world of the examples: two URLs that serve images, one that serves an
  error page (the transport returns it like any payload; it does not decode), any other
  URL unreachable; a disk that accepts every write; the draws fixed.
\<close>

definition demo_chance :: chance where
  "demo_chance =
     \<lparr>http_get = (\<lambda>u proxy.
        if u = ''x/a.png'' then Some ''rgba.png''
        else if u = ''x/b.jpg'' then Some ''photo.jpg''
        else if u = ''x/bad'' then Some ''404 not found''
        else None),
      disk = (\<lambda>p. Written), choice_draw = 0, unit_draw = 1 / 2\<rparr>"

definition demo_world :: world where
  "demo_world = \<lparr>files = Map.empty, events = []\<rparr>"

definition stale_world :: world where
  "stale_world =
     \<lparr>files = [file_path demo_library demo_downloader ''x/bad'' \<mapsto> ''old''], events = []\<rparr>"

definition demo_urls :: "url list" where
  "demo_urls = [''x/a.png'', ''x/bad'', ''x/b.jpg'']"

text \<open>
  A downloader with two thumbnail specs, and a disk that refuses to open anything under
  \<open>thumbs/100\<close>.
\<close>

definition thumbs_downloader :: downloader where
  "thumbs_downloader =
     demo_downloader\<lparr>thumbs_size := [(''100'', (100, 100)), (''200'', (200, 200))]\<rparr>"


definition stored_png :: world where
  "stored_png =
     \<lparr>files = [file_path demo_library thumbs_downloader ''x/a.png'' \<mapsto> ''JPEG:RGB''],
      events = [Get ''x/a.png'' None,
                Write (file_path demo_library thumbs_downloader ''x/a.png'') ''JPEG:RGB'',
                Sleep 2]\<rparr>"

definition png_heap :: heap where
  "png_heap =
     [demo_png,
      \<lparr>img_format = None, img_mode = ''RGBA'', img_size = (500, 300),
       img_pixels = Paste (Fill (255, 255, 255)) (Decoded ''rgba.png'') (Decoded ''rgba.png'')\<rparr>,
      \<lparr>img_format = None, img_mode = ''RGB'', img_size = (500, 300),
       img_pixels = Convert ''RGB''
         (Paste (Fill (255, 255, 255)) (Decoded ''rgba.png'') (Decoded ''rgba.png''))\<rparr>]"

text \<open>
  A disk that cuts every write after four bytes, and a store that already holds a good
  file for the URL.
\<close>

definition cut_chance :: chance where
  "cut_chance = demo_chance\<lparr>disk := (\<lambda>p. Write_Cut 4)\<rparr>"

definition good_world :: world where
  "good_world =
     \<lparr>files = [file_path demo_library demo_downloader ''x/a.png'' \<mapsto> ''JPEG:RGB''],
      events = []\<rparr>"

definition thumbs_done :: world where
  "thumbs_done =
     stored_png\<lparr>files := (files stored_png)
        (thumb_path demo_library thumbs_downloader ''x/a.png'' ''100'' \<mapsto> ''JPEG:RGB'',
         thumb_path demo_library thumbs_downloader ''x/a.png'' ''200'' \<mapsto> ''JPEG:RGB''),
      events := events stored_png @
        [Write (thumb_path demo_library thumbs_downloader ''x/a.png'' ''100'') ''JPEG:RGB'',
         Write (thumb_path demo_library thumbs_downloader ''x/a.png'' ''200'') ''JPEG:RGB'']\<rparr>"

text \<open>
  The paths a download of \<open>u\<close> may read or write: the original's and one per thumbnail
  spec. And the parts of the two steps that happen in memory: the object store the fetch
  branch leaves, and what one thumbnail pass has in hand before it writes (the store, the
  source image and the encoded thumbnail).
\<close>

definition footprint :: "library \<Rightarrow> downloader \<Rightarrow> url \<Rightarrow> path \<Rightarrow> bool" where
  "footprint L d u q =
     (q = file_path L d u \<or> q \<in> set (map (\<lambda>spec. thumb_path L d u (fst spec)) (thumbs_size d)))"

definition fetched_heap :: "library \<Rightarrow> chance \<Rightarrow> url \<Rightarrow> proxy_record option \<Rightarrow> heap" where
  "fetched_heap L ch u proxy =
     (case http_get ch u proxy of
        None \<Rightarrow> []
      | Some content \<Rightarrow>
         (case image_open L content of
            None \<Rightarrow> []
          | Some im \<Rightarrow> fst (convert_image L [im] 0 None)))"

definition thumb_plan ::
  "library \<Rightarrow> bytes option \<Rightarrow> box \<Rightarrow> heap \<Rightarrow> nat option \<Rightarrow> error + heap \<times> nat \<times> bytes" where
  "thumb_plan L stored bx h orig =
     (case (case orig of
              Some r \<Rightarrow> Inr (h, r)
            | None \<Rightarrow>
               (case stored of
                  None \<Rightarrow> Inl FileNotFoundError
                | Some content \<Rightarrow>
                   (case image_open L content of
                      None \<Rightarrow> Inl DecodeError
                    | Some im \<Rightarrow> Inr (alloc h im)))) of
        Inl e \<Rightarrow> Inl e
      | Inr (h1, r) \<Rightarrow>
         (case convert_image L h1 r (Some bx) of
            (h2, Inl e) \<Rightarrow> Inl e
          | (h2, Inr (thumb_image, thumb_buf)) \<Rightarrow> Inr (h2, r, thumb_buf)))"

section \<open>Properties of convert_image\<close>

lemma canonical_colour_mode: "img_mode (canonical_colour im) = ''RGB''"
  by (simp add: canonical_colour_def)

lemma shrink_to_fit_bounds:
  "fst (shrink_to_fit (sw, sh) (w, h)) \<le> w \<and> snd (shrink_to_fit (sw, sh) (w, h)) \<le> h"
proof -
  have a: "(sh * w) div sw \<le> h" if "w * sh \<le> h * sw"
  proof (cases "sw = 0")
    case True
    then show ?thesis by simp
  next
    case False
    from that have "(sh * w) div sw \<le> (h * sw) div sw"
      by (intro div_le_mono) (simp add: mult.commute)
    with False show ?thesis by simp
  qed
  have b: "(sw * h) div sh \<le> w" if "\<not> w * sh \<le> h * sw"
  proof -
    from that have "0 < sh" by (cases sh) auto
    from that have "(sw * h) div sh \<le> (w * sh) div sh"
      by (intro div_le_mono) (simp add: mult.commute)
    with \<open>0 < sh\<close> show ?thesis by simp
  qed
  show ?thesis using a b by auto
qed

lemma shrink_to_fit_aspect:
  assumes "0 < sw" "0 < sh"
  shows "aspect_kept (sw, sh) (shrink_to_fit (sw, sh) (w, h))"
proof -
  have a: "(sh * w) div sw * sw \<le> sh * w" by simp
  have b: "sh * w < ((sh * w) div sw + 1) * sw"
    using assms(1) dividend_less_div_times [of sw "sh * w"] by (simp add: algebra_simps)
  have c: "(sw * h) div sh * sh \<le> sw * h" by simp
  have d: "sw * h < ((sw * h) div sh + 1) * sh"
    using assms(2) dividend_less_div_times [of sh "sw * h"] by (simp add: algebra_simps)
  show ?thesis using a b c d by (auto simp: mult.commute)
qed

lemma shrink_to_fit_fits:
  "sw \<le> w \<Longrightarrow> sh \<le> h \<Longrightarrow> shrink_to_fit (sw, sh) (w, h) = (sw, sh)"
  by simp

lemma img_size_resized: "img_size (resized im bx) = shrink_to_fit (img_size im) bx"
  by (simp add: resized_def Let_def)

lemma img_mode_resized: "img_mode (resized im bx) = img_mode im"
  by (simp add: resized_def Let_def)

lemma img_size_canonical_colour: "img_size (canonical_colour im) = img_size im"
  by (simp add: canonical_colour_def)

lemma canonical_output_mode: "img_mode (canonical_output im sz) = ''RGB''"
  by (cases sz) (simp_all add: canonical_output_def img_mode_resized canonical_colour_mode)

lemma colour_step_run:
  assumes "img < length h"
  shows "\<exists>h1 r. colour_step h img = (h1, r) \<and> r < length h1 \<and>
           h1 ! r = canonical_colour (h ! img) \<and> take (length h) h1 = h \<and>
           length h \<le> length h1"
proof -
  consider (png) "img_format (h ! img) = Some ''PNG'' \<and> img_mode (h ! img) = ''RGBA''"
    | (pal) "\<not> (img_format (h ! img) = Some ''PNG'' \<and> img_mode (h ! img) = ''RGBA'')"
            "img_mode (h ! img) = ''P''"
    | (other) "\<not> (img_format (h ! img) = Some ''PNG'' \<and> img_mode (h ! img) = ''RGBA'')"
            "img_mode (h ! img) \<noteq> ''P''" "img_mode (h ! img) \<noteq> ''RGB''"
    | (rgb) "\<not> (img_format (h ! img) = Some ''PNG'' \<and> img_mode (h ! img) = ''RGBA'')"
            "img_mode (h ! img) \<noteq> ''P''" "img_mode (h ! img) = ''RGB''"
    by blast
  then show ?thesis
  proof cases
    case png
    with assms show ?thesis
      by (simp add: colour_step_def canonical_colour_def composite_on_white_def
          white_background_def Image_new_def paste_def convert_def alloc_def nth_append)
  next
    case pal
    with assms show ?thesis
      by (auto simp: colour_step_def canonical_colour_def composite_on_white_def
          white_background_def Image_new_def paste_def convert_def alloc_def nth_append)
  next
    case other
    with assms show ?thesis
      by (auto simp: colour_step_def canonical_colour_def convert_def alloc_def)
  next
    case rgb
    with assms show ?thesis
      by (auto simp: colour_step_def canonical_colour_def)
  qed
qed

lemma size_step_none: "size_step h r None = (h, r)"
  by (simp add: size_step_def)

lemma size_step_some:
  assumes "r < length h"
  shows "size_step h r (Some bx) = (h @ [resized (h ! r) bx], length h)"
  using assms by (simp add: size_step_def copy_def alloc_def thumbnail_def)

lemma convert_image_run:
  assumes "img < length h"
  shows "\<exists>h' r. r < length h' \<and> take (length h) h' = h \<and>
           h' ! r = canonical_output (h ! img) sz \<and> (sz \<noteq> None \<longrightarrow> length h \<le> r) \<and>
           convert_image L h img sz =
             (h', case image_save L (canonical_output (h ! img) sz) ''JPEG'' of
                    None \<Rightarrow> Inl EncodeError | Some buf \<Rightarrow> Inr (r, buf))"
proof -
  from colour_step_run [OF assms] obtain h1 r1 where
    c: "colour_step h img = (h1, r1)" and r1: "r1 < length h1" and
    v: "h1 ! r1 = canonical_colour (h ! img)" and t: "take (length h) h1 = h" and
    l: "length h \<le> length h1" by blast
  show ?thesis
  proof (cases sz)
    case None
    with c r1 v t show ?thesis
      by (auto simp: convert_image_def size_step_none canonical_output_def split: option.splits)
  next
    case (Some bx)
    with c r1 v t l show ?thesis
      by (auto simp: convert_image_def size_step_some canonical_output_def split: option.splits)
  qed
qed

text \<open>
  C7. On every image that decodes, \<open>convert_image\<close> gives the encoder the image the spec
  describes: a PNG in mode RGBA pasted on a white background and then converted to RGB,
  a mode-P image converted to RGBA, pasted on white and converted to RGB, any other
  non-RGB mode converted to RGB at once, an RGB image as it is (then shrunk when a size
  is given). The image saved is always in mode RGB and saved as JPEG; the only failure
  is the encoder's.
\<close>

theorem convert_image_canonical:
  assumes "img < length h"
  shows "case convert_image L h img sz of
           (h', res) \<Rightarrow>
             img_mode (canonical_output (h ! img) sz) = ''RGB'' \<and>
             (case res of
                Inl e \<Rightarrow> e = EncodeError \<and>
                         image_save L (canonical_output (h ! img) sz) ''JPEG'' = None
              | Inr (r, buf) \<Rightarrow>
                  r < length h' \<and> h' ! r = canonical_output (h ! img) sz \<and>
                  image_save L (h' ! r) ''JPEG'' = Some buf)"
proof -
  from convert_image_run [OF assms, of sz L] obtain h' r where
    "r < length h'" "h' ! r = canonical_output (h ! img) sz"
    "convert_image L h img sz =
       (h', case image_save L (canonical_output (h ! img) sz) ''JPEG'' of
              None \<Rightarrow> Inl EncodeError | Some buf \<Rightarrow> Inr (r, buf))" by blast
  then show ?thesis
    by (simp add: canonical_output_mode split: option.splits)
qed

theorem convert_image_canonical_witness:
  "(0::nat) < length [demo_png] \<and>
   convert_image demo_library [demo_png] 0 None =
     ([demo_png,
       \<lparr>img_format = None, img_mode = ''RGBA'', img_size = (500, 300),
        img_pixels = Paste (Fill (255, 255, 255)) (Decoded ''rgba.png'') (Decoded ''rgba.png'')\<rparr>,
       \<lparr>img_format = None, img_mode = ''RGB'', img_size = (500, 300),
        img_pixels = Convert ''RGB''
          (Paste (Fill (255, 255, 255)) (Decoded ''rgba.png'') (Decoded ''rgba.png''))\<rparr>],
      Inr (2, ''JPEG:RGB''))"
  using convert_image_canonical [where img = 0 and h = "[demo_png]" and L = demo_library and sz = None]
  by (simp add: convert_image_def colour_step_def size_step_def Image_new_def paste_def
      convert_def alloc_def demo_png_def demo_library_def canonical_output_def
      canonical_colour_def composite_on_white_def white_background_def)

text \<open>
  C8. With a size \<open>(w, ht)\<close>, \<open>convert_image\<close> leaves every object that existed before the
  call as it was (the caller's image among them) and returns a new object: its width is
  at most \<open>w\<close>, its height at most \<open>ht\<close>, its aspect ratio is the source's within
  rounding, and it has the source's size when the source already fits in the box.
\<close>

theorem convert_image_thumbnail:
  assumes "img < length h"
  shows "case convert_image L h img (Some (w, ht)) of
           (h', res) \<Rightarrow>
             take (length h) h' = h \<and> h' ! img = h ! img \<and>
             (case res of
                Inl e \<Rightarrow> e = EncodeError
              | Inr (r, buf) \<Rightarrow>
                  length h \<le> r \<and> r < length h' \<and>
                  fst (img_size (h' ! r)) \<le> w \<and> snd (img_size (h' ! r)) \<le> ht \<and>
                  (0 < fst (img_size (h ! img)) \<and> 0 < snd (img_size (h ! img)) \<longrightarrow>
                     aspect_kept (img_size (h ! img)) (img_size (h' ! r))) \<and>
                  (fst (img_size (h ! img)) \<le> w \<and> snd (img_size (h ! img)) \<le> ht \<longrightarrow>
                     img_size (h' ! r) = img_size (h ! img)))"
proof -
  from convert_image_run [OF assms, of "Some (w, ht)" L] obtain h' r where
    r: "r < length h'" and t: "take (length h) h' = h" and
    v: "h' ! r = canonical_output (h ! img) (Some (w, ht))" and f: "length h \<le> r" and
    c: "convert_image L h img (Some (w, ht)) =
       (h', case image_save L (canonical_output (h ! img) (Some (w, ht))) ''JPEG'' of
              None \<Rightarrow> Inl EncodeError | Some buf \<Rightarrow> Inr (r, buf))" by blast
  obtain sw sh where s: "img_size (h ! img) = (sw, sh)" by (cases "img_size (h ! img)")
  have sz: "img_size (h' ! r) = shrink_to_fit (sw, sh) (w, ht)"
    using v s by (simp add: canonical_output_def img_size_resized img_size_canonical_colour)
  have same: "h' ! img = h ! img"
    using t assms by (metis nth_take)
  have b: "fst (img_size (h' ! r)) \<le> w \<and> snd (img_size (h' ! r)) \<le> ht"
    unfolding sz by (rule shrink_to_fit_bounds)
  have a: "0 < sw \<and> 0 < sh \<longrightarrow> aspect_kept (sw, sh) (img_size (h' ! r))"
    unfolding sz using shrink_to_fit_aspect by blast
  have u: "sw \<le> w \<and> sh \<le> ht \<longrightarrow> img_size (h' ! r) = (sw, sh)"
    unfolding sz by simp
  show ?thesis
    using c r t f same b a u s by (simp split: option.splits)
qed

theorem convert_image_thumbnail_witness:
  "(0::nat) < length [demo_png] \<and>
   (case convert_image demo_library [demo_png] 0 (Some (100, 100)) of
      (h', res) \<Rightarrow> h' ! 0 = demo_png \<and>
         (case res of Inl e \<Rightarrow> False
          | Inr (r, buf) \<Rightarrow> r = 3 \<and> img_size (h' ! r) = (100, 60))) \<and>
   (case convert_image demo_library [demo_png] 0 (Some (640, 480)) of
      (h', res) \<Rightarrow> h' ! 0 = demo_png \<and>
         (case res of Inl e \<Rightarrow> False
          | Inr (r, buf) \<Rightarrow> r = 3 \<and> img_size (h' ! r) = (500, 300)))"
  using convert_image_thumbnail [where img = 0 and h = "[demo_png]" and L = demo_library and w = 100 and ht = 100]
    convert_image_thumbnail [where img = 0 and h = "[demo_png]" and L = demo_library and w = 640 and ht = 480]
  by (simp add: convert_image_def colour_step_def size_step_def Image_new_def paste_def
      convert_def copy_def thumbnail_def resized_def alloc_def demo_png_def demo_library_def
      Let_def)

section \<open>Paths and proxies\<close>

lemma of_char_nat_bound: "of_char c < (256::nat)"
  by (cases c) (simp add: of_char_def horner_sum_eq_sum)

lemma hex_digit_inj:
  assumes "a < 16" "b < 16" "hex_digit a = hex_digit b"
  shows "a = b"
proof -
  have d: "distinct ''0123456789abcdef''" by simp
  have l: "length ''0123456789abcdef'' = 16" by simp
  from assms show ?thesis
    unfolding hex_digit_def using nth_eq_iff_index_eq [OF d, of a b] l by simp
qed

lemma hex_pair_inj:
  assumes "hex_digit (of_char c div 16) = hex_digit (of_char c' div 16)"
    and "hex_digit (of_char c mod 16) = hex_digit (of_char c' mod 16)"
  shows "c = c'"
proof -
  let ?n = "of_char c :: nat" and ?m = "of_char c' :: nat"
  have "?n div 16 < 16" "?m div 16 < 16"
    using of_char_nat_bound [of c] of_char_nat_bound [of c'] by arith+
  with assms(1) have q: "?n div 16 = ?m div 16" by (rule_tac hex_digit_inj)
  have "?n mod 16 < 16" "?m mod 16 < 16" by simp_all
  with assms(2) have r: "?n mod 16 = ?m mod 16" by (rule_tac hex_digit_inj)
  from q r have "?n = ?m" by (metis div_mult_mod_eq)
  then show ?thesis by (metis char_of_char)
qed

lemma hexdigest_inj: "hexdigest bs = hexdigest bs' \<Longrightarrow> bs = bs'"
proof (induction bs arbitrary: bs')
  case Nil
  then show ?case by (cases bs') (simp_all add: hexdigest_def)
next
  case (Cons c bs)
  then obtain c' cs' where b: "bs' = c' # cs'" by (cases bs') (simp_all add: hexdigest_def)
  from Cons.prems b have "c = c'" "hexdigest bs = hexdigest cs'"
    by (auto simp: hexdigest_def intro: hex_pair_inj)
  with Cons.IH b show ?case by simp
qed

lemma hexdigest_length: "length (hexdigest bs) = 2 * length bs"
  by (induction bs) (simp_all add: hexdigest_def)

lemma hex_digit_lower: "n < 16 \<Longrightarrow> hex_digit n \<in> set ''0123456789abcdef''"
  unfolding hex_digit_def by (rule nth_mem) simp

lemma hexdigest_lower: "set (hexdigest bs) \<subseteq> set ''0123456789abcdef''"
proof (induction bs)
  case Nil
  show ?case by (simp add: hexdigest_def)
next
  case (Cons c bs)
  have "of_char c div 16 < (16::nat)" using of_char_nat_bound [of c] by arith
  then have a: "hex_digit (of_char c div 16) \<in> set ''0123456789abcdef''" by (rule hex_digit_lower)
  have b: "hex_digit (of_char c mod 16) \<in> set ''0123456789abcdef''" by (rule hex_digit_lower) simp
  from Cons a b show ?case by (simp add: hexdigest_def)
qed

text \<open>
  C6. \<open>file_path\<close> is a function of the store root and the URL alone: the root joined
  with the lowercase hex digest of SHA-1 of the URL's bytes and \<open>.jpg\<close>
  (\<open>thumb_path\<close>: root, \<open>thumbs\<close>, the spec's name, the same file name). The bytes
  hashed are the URL's as given, nothing is normalised, and two URLs share a path exactly
  when their digests are equal: URLs with different digests, such as two that differ in
  case or in a trailing blank, get different paths.
\<close>

theorem paths_content_addressed:
  "file_path L d u = store_path d @ [hexdigest (sha1 L (to_bytes u)) @ ''.jpg''] \<and>
   thumb_path L d u spec =
     store_path d @ [''thumbs'', spec, hexdigest (sha1 L (to_bytes u)) @ ''.jpg''] \<and>
   to_bytes u = u \<and>
   length (hexdigest (sha1 L (to_bytes u))) = 2 * length (sha1 L (to_bytes u)) \<and>
   set (hexdigest (sha1 L (to_bytes u))) \<subseteq> set ''0123456789abcdef'' \<and>
   (file_path L d u = file_path L d u') = (sha1 L (to_bytes u) = sha1 L (to_bytes u')) \<and>
   (thumb_path L d u spec = thumb_path L d u' spec) = (sha1 L (to_bytes u) = sha1 L (to_bytes u')) \<and>
   (sha1 L (to_bytes u) \<noteq> sha1 L (to_bytes u') \<longrightarrow>
      file_path L d u \<noteq> file_path L d u' \<and> thumb_path L d u spec \<noteq> thumb_path L d u' spec)"
  by (auto simp: file_path_def thumb_path_def hexdigest_length to_bytes_def
      dest: hexdigest_inj subsetD [OF hexdigest_lower])

theorem paths_content_addressed_witness:
  "sha1 demo_library (to_bytes ''x/A'') \<noteq> sha1 demo_library (to_bytes ''x/a'') \<and>
   sha1 demo_library (to_bytes ''x/a'') \<noteq> sha1 demo_library (to_bytes ''x/a '') \<and>
   file_path demo_library demo_downloader ''x/A'' = [''imgs'', ''782f41.jpg''] \<and>
   file_path demo_library demo_downloader ''x/a'' = [''imgs'', ''782f61.jpg''] \<and>
   file_path demo_library demo_downloader ''x/A'' \<noteq> file_path demo_library demo_downloader ''x/a'' \<and>
   file_path demo_library demo_downloader ''x/a'' \<noteq> file_path demo_library demo_downloader ''x/a '' \<and>
   thumb_path demo_library demo_downloader ''x/a'' ''100'' = [''imgs'', ''thumbs'', ''100'', ''782f61.jpg'']"
  using paths_content_addressed [where L = demo_library and d = demo_downloader
      and u = "''x/A''" and u' = "''x/a''" and spec = "''100''"]
    paths_content_addressed [where L = demo_library and d = demo_downloader
      and u = "''x/a''" and u' = "''x/a ''" and spec = "''100''"]
  by (simp add: demo_library_def demo_downloader_def to_bytes_def hexdigest_def hex_digit_def
      file_path_def thumb_path_def)

text \<open>
  C1, at the input where the code departs from it. \<open>imagedownloader\<close>'s constructor,
  given a non-empty list of proxy strings and thumbnail sizes as a dict (the default, and
  what the command line passes), stores no proxy at all: the test that should look at
  \<^verbatim>\<open>proxies\<close> looks at \<^verbatim>\<open>thumbs_size\<close>. Every fetch then goes out without a
  proxy. The two lemmas after it show \<open>imgdl\<close> doing what the claim says.
\<close>

theorem init_drops_proxy_list:
  "case init store n thumbs (T_Dict tsz) tmo lo hi (P_List (p # ps)) hdrs ua nb of
     Inl e \<Rightarrow> False
   | Inr d \<Rightarrow> proxies d = No_Proxy \<and> get_proxy ch d = Inr None"
  by (simp add: init_def resolve_thumbs_def get_proxy_def Let_def split: list.splits)

lemma resolve_proxies_list:
  "ps \<noteq> [] \<Longrightarrow> resolve_proxies (P_List ps) = Inr (Proxy_List (map format_as_dict ps))"
  by (simp add: resolve_proxies_def)

lemma get_proxy_list:
  assumes "proxies d = Proxy_List (map format_as_dict ps)" "ps \<noteq> []"
  shows "\<exists>p \<in> set ps. get_proxy ch d = Inr (Some [(''http'', p), (''https'', p)])"
proof -
  have "choice_draw ch mod length ps < length ps" using assms(2) by simp
  then have "ps ! (choice_draw ch mod length ps) \<in> set ps" by (rule nth_mem)
  with assms show ?thesis
    by (auto simp: get_proxy_def format_as_dict_def intro!: bexI [of _ "ps ! (choice_draw ch mod length ps)"])
qed

section \<open>One URL: the shape of a run\<close>

lemma fetches_append: "fetches (xs @ ys) = fetches xs @ fetches ys"
  by (induction xs rule: fetches.induct) simp_all

lemma sleeps_append: "sleeps (xs @ ys) = sleeps xs @ sleeps ys"
  by (induction xs rule: sleeps.induct) simp_all

lemma writes_to_append: "writes_to p (xs @ ys) = writes_to p xs @ writes_to p ys"
  by (induction p xs rule: writes_to.induct) simp_all

lemma fetch_original_effect:
  "\<exists>h. fetch_original L ch d w u p proxy =
     (case encoded L ch u proxy of
        Inl e \<Rightarrow> (emit (Get u proxy) w, Inl e)
      | Inr buf \<Rightarrow>
         (case persist_file ch (emit (Get u proxy) w) p buf of
            (w2, Inl e) \<Rightarrow> (w2, Inl e)
          | (w2, Inr x) \<Rightarrow>
              (emit (Sleep (uniform ch (min_wait d) (max_wait d))) w2, Inr (h, 0))))"
proof (cases "http_get ch u proxy")
  case None
  then show ?thesis by (simp add: fetch_original_def encoded_def)
next
  case (Some content)
  note c = this
  show ?thesis
  proof (cases "image_open L content")
    case None
    with c show ?thesis by (simp add: fetch_original_def encoded_def)
  next
    case (Some im)
    have "(0::nat) < length [im]" by simp
    from convert_image_run [OF this, of None L] obtain h' r where
      r: "convert_image L [im] 0 None =
           (h', case image_save L (canonical_colour im) ''JPEG'' of
                  None \<Rightarrow> Inl EncodeError | Some buf \<Rightarrow> Inr (r, buf))"
      by (auto simp: canonical_output_def)
    show ?thesis
    proof (cases "image_save L (canonical_colour im) ''JPEG''")
      case None
      with c Some r show ?thesis
        by (simp add: fetch_original_def encoded_def alloc_def)
    next
      case (Some buf)
      with c \<open>image_open L content = Some im\<close> r show ?thesis
        by (auto simp: fetch_original_def encoded_def alloc_def split: prod.splits sum.splits)
    qed
  qed
qed

lemma original_step_effect:
  assumes "get_proxy ch d = Inr proxy"
  shows "\<exists>h orig. original_step L ch d w u force =
     (case original_effect L ch d w u force proxy of
        (w1, Some e) \<Rightarrow> (w1, Inl e)
      | (w1, None) \<Rightarrow> (w1, Inr (h, orig)))"
proof (cases "files w (file_path L d u) = None \<or> force")
  case False
  then show ?thesis by (auto simp: original_step_def original_effect_def Let_def)
next
  case True
  obtain h where h: "fetch_original L ch d w u (file_path L d u) proxy =
     (case encoded L ch u proxy of
        Inl e \<Rightarrow> (emit (Get u proxy) w, Inl e)
      | Inr buf \<Rightarrow>
         (case persist_file ch (emit (Get u proxy) w) (file_path L d u) buf of
            (w2, Inl e) \<Rightarrow> (w2, Inl e)
          | (w2, Inr x) \<Rightarrow>
              (emit (Sleep (uniform ch (min_wait d) (max_wait d))) w2, Inr (h, 0))))"
    using fetch_original_effect by blast
  show ?thesis
  proof (cases "encoded L ch u proxy")
    case (Inl e)
    with True assms h show ?thesis
      by (simp add: original_step_def original_effect_def Let_def)
  next
    case (Inr buf)
    with True assms h show ?thesis
      by (cases "disk ch (file_path L d u)")
         (auto simp: original_step_def original_effect_def persist_file_def emit_def Let_def)
  qed
qed

lemma imgdl_download_image_effect:
  assumes "get_proxy ch d = Inr proxy"
  shows "imgdl_download_image L ch d w u force =
     (case original_effect L ch d w u force proxy of
        (w1, Some e) \<Rightarrow> (w1, Inl e)
      | (w1, None) \<Rightarrow> (w1, Inr (file_path L d u)))"
proof (cases "files w (file_path L d u) = None \<or> force")
  case False
  with assms show ?thesis by (auto simp: imgdl_download_image_def original_effect_def Let_def)
next
  case True
  obtain h where h: "fetch_original L ch d w u (file_path L d u) proxy =
     (case encoded L ch u proxy of
        Inl e \<Rightarrow> (emit (Get u proxy) w, Inl e)
      | Inr buf \<Rightarrow>
         (case persist_file ch (emit (Get u proxy) w) (file_path L d u) buf of
            (w2, Inl e) \<Rightarrow> (w2, Inl e)
          | (w2, Inr x) \<Rightarrow>
              (emit (Sleep (uniform ch (min_wait d) (max_wait d))) w2, Inr (h, 0))))"
    using fetch_original_effect by blast
  show ?thesis
  proof (cases "encoded L ch u proxy")
    case (Inl e)
    with True assms h show ?thesis
      by (simp add: imgdl_download_image_def original_effect_def Let_def)
  next
    case (Inr buf)
    with True assms h show ?thesis
      by (cases "disk ch (file_path L d u)")
         (auto simp: imgdl_download_image_def original_effect_def persist_file_def emit_def Let_def)
  qed
qed

lemma file_path_not_thumb_path: "file_path L d u \<noteq> thumb_path L d u' thumb_id"
  by (simp add: file_path_def thumb_path_def)

lemma persist_file_frame:
  assumes "persist_file ch w q buf = (w', r)" "q \<noteq> p"
  shows "files w' p = files w p \<and> fetches (events w') = fetches (events w) \<and>
         sleeps (events w') = sleeps (events w) \<and>
         writes_to p (events w') = writes_to p (events w) \<and>
         (\<exists>more. events w' = events w @ more)"
  using assms
  by (cases "disk ch q")
     (auto simp: persist_file_def emit_def fetches_append sleeps_append writes_to_append)

lemma thumb_step_world:
  assumes "thumb_step L ch d u force p spec w h orig = (w', r)"
  shows "w' = w \<or> (\<exists>buf r'. persist_file ch w (thumb_path L d u (fst spec)) buf = (w', r'))"
  using assms
  by (auto simp: thumb_step_def Let_def split: if_splits option.splits sum.splits prod.splits)

lemma thumb_step_frame:
  assumes "thumb_step L ch d u force p spec w h orig = (w', r)"
  shows "files w' (file_path L d u) = files w (file_path L d u) \<and>
         fetches (events w') = fetches (events w) \<and>
         sleeps (events w') = sleeps (events w) \<and>
         writes_to (file_path L d u) (events w') = writes_to (file_path L d u) (events w) \<and>
         (\<exists>more. events w' = events w @ more)"
proof -
  from thumb_step_world [OF assms] show ?thesis
  proof
    assume "w' = w"
    then show ?thesis by simp
  next
    assume "\<exists>buf r'. persist_file ch w (thumb_path L d u (fst spec)) buf = (w', r')"
    then obtain buf r' where
      "persist_file ch w (thumb_path L d u (fst spec)) buf = (w', r')" by blast
    then show ?thesis
      by (rule persist_file_frame) (simp add: file_path_not_thumb_path [symmetric])
  qed
qed

lemma thumbs_loop_frame:
  assumes "thumbs_loop L ch d u force p specs w h orig = (w', r)"
  shows "files w' (file_path L d u) = files w (file_path L d u) \<and>
         fetches (events w') = fetches (events w) \<and>
         sleeps (events w') = sleeps (events w) \<and>
         writes_to (file_path L d u) (events w') = writes_to (file_path L d u) (events w) \<and>
         (\<exists>more. events w' = events w @ more)"
  using assms
proof (induction specs arbitrary: w h orig)
  case Nil
  then show ?case by simp
next
  case (Cons spec rest)
  obtain w1 r1 where s: "thumb_step L ch d u force p spec w h orig = (w1, r1)"
    by (cases "thumb_step L ch d u force p spec w h orig")
  note f = thumb_step_frame [OF s]
  show ?case
  proof (cases r1)
    case (Inl e)
    with Cons.prems s have "w' = w1" by simp
    with f show ?thesis by simp
  next
    case (Inr st)
    obtain h1 orig1 where "st = (h1, orig1)" by (cases st)
    with Inr Cons.prems s have "thumbs_loop L ch d u force p rest w1 h1 orig1 = (w', r)"
      by simp
    from Cons.IH [OF this] f show ?thesis by auto
  qed
qed

text \<open>
  A run of either downloader on one URL, once a proxy can be chosen: the world after the
  original step is the one \<open>original_effect\<close> gives, an error of that step is the
  result, and what follows (the thumbnails, in \<open>imagedownloader\<close>) neither fetches nor
  sleeps nor touches the original's file.
\<close>

lemma run_shape:
  assumes p: "get_proxy ch d = Inr proxy"
    and run: "download_image L ch d w u force = (w', res) \<or>
              imgdl_download_image L ch d w u force = (w', res)"
  shows "\<exists>w1 err. original_effect L ch d w u force proxy = (w1, err) \<and>
           files w' (file_path L d u) = files w1 (file_path L d u) \<and>
           fetches (events w') = fetches (events w1) \<and>
           sleeps (events w') = sleeps (events w1) \<and>
           writes_to (file_path L d u) (events w') = writes_to (file_path L d u) (events w1) \<and>
           (\<exists>more. events w' = events w1 @ more) \<and>
           (case err of
              Some e \<Rightarrow> res = Inl e \<and> w' = w1
            | None \<Rightarrow> thumbs_size d = [] \<longrightarrow> res = Inr (file_path L d u) \<and> w' = w1)"
proof -
  obtain w1 err where e: "original_effect L ch d w u force proxy = (w1, err)"
    by (cases "original_effect L ch d w u force proxy")
  from run show ?thesis
  proof
    assume r: "imgdl_download_image L ch d w u force = (w', res)"
    with imgdl_download_image_effect [OF p, of L w u force] e show ?thesis
      by (cases err) auto
  next
    assume r: "download_image L ch d w u force = (w', res)"
    from original_step_effect [OF p, of L w u force] e obtain h orig where
      o: "original_step L ch d w u force =
            (case err of Some e \<Rightarrow> (w1, Inl e) | None \<Rightarrow> (w1, Inr (h, orig)))"
      by auto
    show ?thesis
    proof (cases err)
      case (Some x)
      with o r e show ?thesis by (simp add: download_image_def)
    next
      case None
      obtain w2 r2 where
        t: "thumbs_loop L ch d u force (file_path L d u) (thumbs_size d) w1 h orig = (w2, r2)"
        by (cases "thumbs_loop L ch d u force (file_path L d u) (thumbs_size d) w1 h orig")
      with None o r have w: "w' = w2"
        by (cases r2) (auto simp: download_image_def)
      from None o r t have
        "thumbs_size d = [] \<longrightarrow> res = Inr (file_path L d u) \<and> w' = w1"
        by (auto simp: download_image_def)
      with thumbs_loop_frame [OF t] w e None show ?thesis by simp
    qed
  qed
qed

lemma run_without_proxy:
  assumes p: "get_proxy ch d = Inl e"
    and run: "download_image L ch d w u force = (w', res) \<or>
              imgdl_download_image L ch d w u force = (w', res)"
  shows "files w' (file_path L d u) = files w (file_path L d u) \<and>
         fetches (events w') = fetches (events w) \<and>
         sleeps (events w') = sleeps (events w) \<and>
         writes_to (file_path L d u) (events w') = writes_to (file_path L d u) (events w) \<and>
         (files w (file_path L d u) = None \<or> force \<longrightarrow> res = Inl e \<and> w' = w)"
  using run
proof
  assume "imgdl_download_image L ch d w u force = (w', res)"
  with p show ?thesis by (simp add: imgdl_download_image_def)
next
  assume r: "download_image L ch d w u force = (w', res)"
  show ?thesis
  proof (cases "files w (file_path L d u) = None \<or> force")
    case True
    with p have "original_step L ch d w u force = (w, Inl e)"
      by (auto simp: original_step_def)
    with r True show ?thesis by (simp add: download_image_def)
  next
    case False
    then have o: "original_step L ch d w u force = (w, Inr ([], None))"
      by (auto simp: original_step_def)
    obtain w2 r2 where
      t: "thumbs_loop L ch d u force (file_path L d u) (thumbs_size d) w [] None = (w2, r2)"
      by (cases "thumbs_loop L ch d u force (file_path L d u) (thumbs_size d) w [] None")
    with o r have "w' = w2" by (cases r2) (auto simp: download_image_def)
    with thumbs_loop_frame [OF t] False show ?thesis by auto
  qed
qed

section \<open>One URL: fetch, persist, sleep\<close>

lemma demo_get_proxy: "get_proxy demo_chance demo_downloader = Inr None"
  by (simp add: get_proxy_def demo_downloader_def)

lemma demo_encoded_bad: "encoded demo_library demo_chance ''x/bad'' None = Inl DecodeError"
  by (simp add: encoded_def demo_library_def demo_chance_def)

lemma demo_encoded_down: "encoded demo_library demo_chance ''x/down'' None = Inl FetchError"
  by (simp add: encoded_def demo_library_def demo_chance_def)

lemma demo_encoded_png: "encoded demo_library demo_chance ''x/a.png'' None = Inr ''JPEG:RGB''"
  by (simp add: encoded_def demo_library_def demo_chance_def canonical_colour_def)

lemma demo_fields:
  "thumbs_size demo_downloader = []" "min_wait demo_downloader = 1"
  "max_wait demo_downloader = 3" "disk demo_chance p = Written"
  "unit_draw demo_chance = 1 / 2"
  by (simp_all add: demo_downloader_def demo_chance_def)

lemma demo_run_bad_forced:
  "download_image demo_library demo_chance demo_downloader stale_world ''x/bad'' True =
     (emit (Get ''x/bad'' None) stale_world, Inl DecodeError)"
  using run_shape [OF demo_get_proxy, of demo_library stale_world "''x/bad''" True
      "fst (download_image demo_library demo_chance demo_downloader stale_world ''x/bad'' True)"
      "snd (download_image demo_library demo_chance demo_downloader stale_world ''x/bad'' True)"]
  by (auto simp: original_effect_def demo_encoded_bad Let_def prod_eq_iff)

lemma demo_run_bad:
  "download_image demo_library demo_chance demo_downloader demo_world ''x/bad'' False =
     (emit (Get ''x/bad'' None) demo_world, Inl DecodeError)"
  using run_shape [OF demo_get_proxy, of demo_library demo_world "''x/bad''" False
      "fst (download_image demo_library demo_chance demo_downloader demo_world ''x/bad'' False)"
      "snd (download_image demo_library demo_chance demo_downloader demo_world ''x/bad'' False)"]
  by (auto simp: original_effect_def demo_encoded_bad Let_def prod_eq_iff demo_world_def)

lemma demo_run_down:
  "download_image demo_library demo_chance demo_downloader demo_world ''x/down'' False =
     (emit (Get ''x/down'' None) demo_world, Inl FetchError)"
  using run_shape [OF demo_get_proxy, of demo_library demo_world "''x/down''" False
      "fst (download_image demo_library demo_chance demo_downloader demo_world ''x/down'' False)"
      "snd (download_image demo_library demo_chance demo_downloader demo_world ''x/down'' False)"]
  by (auto simp: original_effect_def demo_encoded_down Let_def prod_eq_iff demo_world_def)

lemma demo_run_png:
  "download_image demo_library demo_chance demo_downloader demo_world ''x/a.png'' False =
     (\<lparr>files = [file_path demo_library demo_downloader ''x/a.png'' \<mapsto> ''JPEG:RGB''],
       events = [Get ''x/a.png'' None,
                 Write (file_path demo_library demo_downloader ''x/a.png'') ''JPEG:RGB'',
                 Sleep 2]\<rparr>,
      Inr (file_path demo_library demo_downloader ''x/a.png''))"
  using run_shape [OF demo_get_proxy, of demo_library demo_world "''x/a.png''" False
      "fst (download_image demo_library demo_chance demo_downloader demo_world ''x/a.png'' False)"
      "snd (download_image demo_library demo_chance demo_downloader demo_world ''x/a.png'' False)"]
  by (auto simp: original_effect_def demo_encoded_png Let_def prod_eq_iff demo_world_def
      demo_fields uniform_def)


lemma demo_world_fields:
  "files demo_world = Map.empty" "events demo_world = []"
  "files stale_world (file_path demo_library demo_downloader ''x/bad'') = Some ''old''"
  "events stale_world = []"
  by (simp_all add: demo_world_def stale_world_def)

lemma uniform_bounds:
  assumes "a \<le> b" "0 \<le> unit_draw ch" "unit_draw ch \<le> 1"
  shows "a \<le> uniform ch a b \<and> uniform ch a b \<le> b"
proof -
  have "0 \<le> (b - a) * unit_draw ch" using assms by simp
  moreover have "(b - a) * unit_draw ch \<le> (b - a) * 1"
    using assms by (intro mult_left_mono) simp_all
  ultimately show ?thesis by (simp add: uniform_def)
qed

text \<open>
  C9 as stated fails: for a URL whose payload does not decode, the network fetch is
  performed and no sleep follows.
\<close>

theorem sleep_iff_fetch_counterexample:
  "fetches (events (fst (download_image demo_library demo_chance demo_downloader demo_world
      ''x/bad'' False))) = [(''x/bad'', None)] \<and>
   sleeps (events (fst (download_image demo_library demo_chance demo_downloader demo_world
      ''x/bad'' False))) = [] \<and>
   snd (download_image demo_library demo_chance demo_downloader demo_world ''x/bad'' False) =
     Inl DecodeError \<and>
   \<not> ((sleeps (events (fst (download_image demo_library demo_chance demo_downloader
           demo_world ''x/bad'' False))) \<noteq> []) =
       (fetches (events (fst (download_image demo_library demo_chance demo_downloader
           demo_world ''x/bad'' False))) \<noteq> []))"
  by (simp add: demo_run_bad emit_def demo_world_fields)

text \<open>
  C9, amended. Once a proxy can be chosen, one sleep of duration
  \<open>min_wait + (max_wait - min_wait) * r\<close> (\<open>r\<close> the generator's draw, so within
  \<open>[min_wait, max_wait]\<close> for a draw in \<open>[0, 1]\<close>) is executed exactly when the
  fetch-decode-persist sequence ran and completed: the file was missing or \<open>force\<close> was
  set, and fetch, decode, encode and write all succeeded. It comes right after the GET
  and the write. A fetch whose decode, encode or write fails is followed by no sleep,
  and a skip neither fetches nor sleeps.
\<close>

theorem sleep_iff_original_stored:
  assumes p: "get_proxy ch d = Inr proxy"
    and run: "download_image L ch d w u force = (w', res) \<or>
              imgdl_download_image L ch d w u force = (w', res)"
  shows "sleeps (events w') =
           sleeps (events w) @
             (if files w (file_path L d u) = None \<or> force then
                (case encoded L ch u proxy of
                   Inl e \<Rightarrow> []
                 | Inr buf \<Rightarrow>
                    (case disk ch (file_path L d u) of
                       Written \<Rightarrow> [uniform ch (min_wait d) (max_wait d)]
                     | Open_Denied \<Rightarrow> [] | Write_Cut n \<Rightarrow> []))
              else []) \<and>
         ((files w (file_path L d u) = None \<or> force) \<and> encoded L ch u proxy = Inr buf \<and>
          disk ch (file_path L d u) = Written \<longrightarrow>
            (\<exists>more. events w' =
               events w @ [Get u proxy, Write (file_path L d u) buf,
                           Sleep (uniform ch (min_wait d) (max_wait d))] @ more)) \<and>
         (\<not> (files w (file_path L d u) = None \<or> force) \<longrightarrow>
            sleeps (events w') = sleeps (events w) \<and>
            fetches (events w') = fetches (events w)) \<and>
         (min_wait d \<le> max_wait d \<and> 0 \<le> unit_draw ch \<and> unit_draw ch \<le> 1 \<longrightarrow>
            min_wait d \<le> uniform ch (min_wait d) (max_wait d) \<and>
            uniform ch (min_wait d) (max_wait d) \<le> max_wait d)"
proof -
  from run_shape [OF p run] obtain w1 err more where
    e: "original_effect L ch d w u force proxy = (w1, err)" and
    g: "fetches (events w') = fetches (events w1)" and
    s: "sleeps (events w') = sleeps (events w1)" and
    m: "events w' = events w1 @ more"
    by blast
  have b: "min_wait d \<le> max_wait d \<and> 0 \<le> unit_draw ch \<and> unit_draw ch \<le> 1 \<longrightarrow>
            min_wait d \<le> uniform ch (min_wait d) (max_wait d) \<and>
            uniform ch (min_wait d) (max_wait d) \<le> max_wait d"
    using uniform_bounds by blast
  show ?thesis
  proof (cases "files w (file_path L d u) = None \<or> force")
    case False
    with e g s b show ?thesis by (auto simp: original_effect_def)
  next
    case True
    show ?thesis
    proof (cases "encoded L ch u proxy")
      case (Inl x)
      with True e have "w1 = emit (Get u proxy) w"
        by (auto simp: original_effect_def)
      with s Inl True b show ?thesis
        by (auto simp: emit_def sleeps_append)
    next
      case (Inr bf)
      with True e s m b show ?thesis
        by (cases "disk ch (file_path L d u)")
           (auto simp: original_effect_def emit_def sleeps_append Let_def)
    qed
  qed
qed

theorem sleep_iff_original_stored_witness:
  "get_proxy demo_chance demo_downloader = Inr None \<and>
   download_image demo_library demo_chance demo_downloader demo_world ''x/a.png'' False =
     (\<lparr>files = [file_path demo_library demo_downloader ''x/a.png'' \<mapsto> ''JPEG:RGB''],
       events = [Get ''x/a.png'' None,
                 Write (file_path demo_library demo_downloader ''x/a.png'') ''JPEG:RGB'',
                 Sleep 2]\<rparr>,
      Inr (file_path demo_library demo_downloader ''x/a.png'')) \<and>
   files demo_world (file_path demo_library demo_downloader ''x/a.png'') = None \<and>
   encoded demo_library demo_chance ''x/a.png'' None = Inr ''JPEG:RGB'' \<and>
   disk demo_chance (file_path demo_library demo_downloader ''x/a.png'') = Written \<and>
   min_wait demo_downloader \<le> max_wait demo_downloader \<and>
   0 \<le> unit_draw demo_chance \<and> unit_draw demo_chance \<le> 1 \<and>
   uniform demo_chance (min_wait demo_downloader) (max_wait demo_downloader) = 2"
  using sleep_iff_original_stored [OF demo_get_proxy disjI1, OF demo_run_png,
      where buf = "''JPEG:RGB''"]
  by (simp add: demo_get_proxy demo_run_png demo_encoded_png demo_fields demo_world_fields
      uniform_def)

section \<open>The call operator: one URL, many URLs\<close>

lemma run_tasks_indices:
  "run_tasks t chs urls force order w = (w', futures) \<Longrightarrow> map fst futures = order"
proof (induction order arbitrary: w w' futures)
  case Nil
  then show ?case by simp
next
  case (Cons i rest)
  obtain w1 out where a: "t (chs i) w (urls ! i) force = (w1, out)"
    by (cases "t (chs i) w (urls ! i) force")
  obtain w2 outs where b: "run_tasks t chs urls force rest w1 = (w2, outs)"
    by (cases "run_tasks t chs urls force rest w1")
  from Cons.prems a b have "futures = (i, out) # outs" by simp
  with Cons.IH [OF b] show ?case by simp
qed

lemma run_tasks_snoc:
  "run_tasks t chs urls force (order @ [i]) w =
     (let (w1, outs) = run_tasks t chs urls force order w;
          (w2, out) = t (chs i) w1 (urls ! i) force
      in (w2, outs @ [(i, out)]))"
  by (induction order arbitrary: w) (simp_all add: Let_def split: prod.splits)

lemma aligned_result_simps:
  "aligned_result paths (i, out) = (case out of Inl e \<Rightarrow> paths | Inr p \<Rightarrow> paths[i := Some p])"
  by (simp add: aligned_result_def split: sum.splits)

lemma keyed_result_simp: "keyed_result urls paths (i, out) = paths(urls ! i \<mapsto> absence out)"
  by (cases out) (simp_all add: keyed_result_def absence_def)

lemma foldl_aligned_length: "length (foldl aligned_result acc futures) = length acc"
  by (induction futures arbitrary: acc) (auto simp: aligned_result_simps split: sum.splits)

lemma collect_aligned_length: "length (collect_aligned n futures) = n"
  by (simp add: collect_aligned_def foldl_aligned_length)

lemma foldl_aligned_skip:
  "k \<notin> fst ` set futures \<Longrightarrow> foldl aligned_result acc futures ! k = acc ! k"
  by (induction futures arbitrary: acc) (auto simp: aligned_result_simps split: sum.splits)

lemma foldl_aligned_nth:
  assumes "distinct (map fst futures)" "(i, out) \<in> set futures" "i < length acc"
  shows "foldl aligned_result acc futures ! i = (case out of Inr p \<Rightarrow> Some p | Inl e \<Rightarrow> acc ! i)"
  using assms
proof (induction futures arbitrary: acc)
  case Nil
  then show ?case by simp
next
  case (Cons f futures)
  obtain j o' where f: "f = (j, o')" by (cases f)
  show ?case
  proof (cases "(i, out) = f")
    case True
    with f Cons.prems have "i \<notin> fst ` set futures" by auto
    from foldl_aligned_skip [OF this] True f Cons.prems(3) show ?thesis
      by (auto simp: aligned_result_simps split: sum.splits)
  next
    case False
    with Cons.prems have m: "(i, out) \<in> set futures" by simp
    with Cons.prems f have ne: "j \<noteq> i" by (auto simp: image_iff)
    have d: "distinct (map fst futures)" using Cons.prems by simp
    have l: "i < length (aligned_result acc f)"
      using Cons.prems(3) f by (auto simp: aligned_result_simps split: sum.splits)
    from Cons.IH [OF d m l] ne f show ?thesis
      by (auto simp: aligned_result_simps split: sum.splits)
  qed
qed

lemma collect_aligned_nth:
  assumes "distinct (map fst futures)" "(i, out) \<in> set futures" "i < n"
  shows "collect_aligned n futures ! i = absence out"
  using foldl_aligned_nth [OF assms(1,2), of "replicate n None"] assms(3)
  by (cases out) (simp_all add: collect_aligned_def absence_def)

lemma collect_keyed_snoc:
  "collect_keyed urls (futures @ [(i, out)]) = (collect_keyed urls futures)(urls ! i \<mapsto> absence out)"
  by (simp add: collect_keyed_def keyed_result_simp)

lemma collect_keyed_dom: "dom (collect_keyed urls futures) = (\<lambda>f. urls ! fst f) ` set futures"
proof (induction futures rule: rev_induct)
  case Nil
  show ?case by (simp add: collect_keyed_def)
next
  case (snoc f futures)
  obtain i out where f: "f = (i, out)" by (cases f)
  have "dom (collect_keyed urls (futures @ [f])) =
          insert (urls ! i) (dom (collect_keyed urls futures))"
    unfolding f collect_keyed_snoc by simp
  also have "\<dots> = (\<lambda>f. urls ! fst f) ` set (futures @ [f])"
    unfolding snoc f by simp
  finally show ?case .
qed

lemma collect_keyed_value:
  assumes "collect_keyed urls futures u = Some v"
  shows "\<exists>(i, out) \<in> set futures. urls ! i = u \<and> v = absence out"
  using assms
proof (induction futures rule: rev_induct)
  case Nil
  then show ?case by (simp add: collect_keyed_def)
next
  case (snoc f futures)
  obtain i out where f: "f = (i, out)" by (cases f)
  with snoc show ?case by (auto simp: collect_keyed_snoc split: if_splits)
qed

lemma collect_keyed_agree:
  assumes "\<forall>(i, out) \<in> set futures. urls ! i = u \<longrightarrow> absence out = v"
    and "\<exists>(i, out) \<in> set futures. urls ! i = u"
  shows "collect_keyed urls futures u = Some v"
proof -
  from assms(2) have "u \<in> dom (collect_keyed urls futures)"
    unfolding collect_keyed_dom by force
  then obtain v' where v: "collect_keyed urls futures u = Some v'" by blast
  from collect_keyed_value [OF v] assms(1) have "v' = v" by auto
  with v show ?thesis by simp
qed

lemma run_tasks_nth:
  assumes "run_tasks t chs urls force order w = (w', futures)" "k < length order"
  shows "futures ! k =
           (order ! k,
            snd (t (chs (order ! k)) (fst (run_tasks t chs urls force (take k order) w))
                   (urls ! (order ! k)) force))"
  using assms
proof (induction order arbitrary: w w' futures k)
  case Nil
  then show ?case by simp
next
  case (Cons i rest)
  obtain w1 out where a: "t (chs i) w (urls ! i) force = (w1, out)"
    by (cases "t (chs i) w (urls ! i) force")
  obtain w2 outs where b: "run_tasks t chs urls force rest w1 = (w2, outs)"
    by (cases "run_tasks t chs urls force rest w1")
  from Cons.prems a b have f: "futures = (i, out) # outs" by simp
  show ?case
  proof (cases k)
    case 0
    with f a show ?thesis by simp
  next
    case (Suc k')
    with Cons.prems have "k' < length rest" by simp
    from Cons.IH [OF b this] f a Suc show ?thesis
      by (simp add: Let_def split: prod.splits)
  qed
qed

lemma download_image_path:
  "download_image L ch d w u force = (w', Inr p) \<Longrightarrow> p = file_path L d u"
  by (auto simp: download_image_def Let_def split: prod.splits sum.splits)

lemma imgdl_download_image_path:
  "imgdl_download_image L ch d w u force = (w', Inr p) \<Longrightarrow> p = file_path L d u"
  by (auto simp: imgdl_download_image_def Let_def split: prod.splits sum.splits if_splits)

lemma demo_file_path_eq:
  "(file_path demo_library d u = file_path demo_library d u') = (u = u')"
  by (auto simp: file_path_def to_bytes_def demo_library_def dest: hexdigest_inj)

lemma demo_encoded_jpg: "encoded demo_library demo_chance ''x/b.jpg'' None = Inr ''JPEG:RGB''"
  by (simp add: encoded_def demo_library_def demo_chance_def canonical_colour_def)

lemma demo_order: "distinct [2, 0, 1 :: nat] \<and> set [2, 0, 1 :: nat] = {..<length demo_urls}"
  by (auto simp: demo_urls_def)


lemma demo_task_imgdl:
  "imgdl_download_image demo_library demo_chance demo_downloader w u False =
     (if files w (file_path demo_library demo_downloader u) = None then
        (case encoded demo_library demo_chance u None of
           Inl e \<Rightarrow> (emit (Get u None) w, Inl e)
         | Inr buf \<Rightarrow>
             (w\<lparr>files := (files w)(file_path demo_library demo_downloader u \<mapsto> buf),
                events := events w @ [Get u None,
                   Write (file_path demo_library demo_downloader u) buf, Sleep 2]\<rparr>,
              Inr (file_path demo_library demo_downloader u)))
      else (w, Inr (file_path demo_library demo_downloader u)))"
  by (simp add: imgdl_download_image_effect [OF demo_get_proxy] original_effect_def
      demo_fields uniform_def Let_def split: sum.splits)

lemma demo_batch_imgdl:
  "snd (run_tasks (\<lambda>ch. imgdl_download_image demo_library ch demo_downloader)
          (\<lambda>i. demo_chance) demo_urls False [2, 0, 1] demo_world) =
     [(2, Inr (file_path demo_library demo_downloader ''x/b.jpg'')),
      (0, Inr (file_path demo_library demo_downloader ''x/a.png'')),
      (1, Inl DecodeError)]"
  by (simp add: demo_task_imgdl demo_encoded_jpg demo_encoded_png demo_encoded_bad
      demo_world_fields demo_file_path_eq demo_urls_def emit_def)


lemma demo_task_keyed:
  "download_image demo_library demo_chance demo_downloader w u False =
     imgdl_download_image demo_library demo_chance demo_downloader w u False"
proof -
  obtain w1 err where e:
    "original_effect demo_library demo_chance demo_downloader w u False None = (w1, err)"
    by (cases "original_effect demo_library demo_chance demo_downloader w u False None")
  obtain w' res where r:
    "download_image demo_library demo_chance demo_downloader w u False = (w', res)"
    by (cases "download_image demo_library demo_chance demo_downloader w u False")
  from run_shape [OF demo_get_proxy disjI1, OF r] e have
    "case err of Some e \<Rightarrow> res = Inl e \<and> w' = w1
     | None \<Rightarrow> res = Inr (file_path demo_library demo_downloader u) \<and> w' = w1"
    by (cases err) (auto simp: demo_fields)
  with r e show ?thesis
    by (cases err) (simp_all add: imgdl_download_image_effect [OF demo_get_proxy])
qed

lemma demo_batch_keyed:
  "snd (run_tasks (\<lambda>ch. download_image demo_library ch demo_downloader)
          (\<lambda>i. demo_chance) demo_urls False [2, 0, 1] demo_world) =
     [(2, Inr (file_path demo_library demo_downloader ''x/b.jpg'')),
      (0, Inr (file_path demo_library demo_downloader ''x/a.png'')),
      (1, Inl DecodeError)]"
  by (simp add: demo_task_keyed demo_task_imgdl demo_encoded_jpg demo_encoded_png
      demo_encoded_bad demo_world_fields demo_file_path_eq demo_urls_def emit_def)


section \<open>Thumbnails\<close>

lemma thumb_path_inj: "(thumb_path L d u a = thumb_path L d u b) = (a = b)"
  by (simp add: thumb_path_def)






lemma demo_library_fields:
  "image_open demo_library ''rgba.png'' = Some demo_png"
  "image_save demo_library im fmt =
     (if img_size im = (0, 0) then None else Some (fmt @ '':'' @ img_mode im))"
  by (simp_all add: demo_library_def demo_png_def)

lemma demo_png_fields:
  "img_format demo_png = Some ''PNG''" "img_mode demo_png = ''RGBA''"
  "img_size demo_png = (500, 300)" "img_pixels demo_png = Decoded ''rgba.png''"
  by (simp_all add: demo_png_def)



lemma stored_png_fields:
  "files stored_png (file_path demo_library thumbs_downloader ''x/a.png'') = Some ''JPEG:RGB''"
  "files stored_png (thumb_path demo_library thumbs_downloader u tid) = None"
  "writes_to (thumb_path demo_library thumbs_downloader u tid) (events stored_png) = []"
  by (simp_all add: stored_png_def file_path_not_thumb_path file_path_not_thumb_path [symmetric])






section \<open>The original's file\<close>

lemma cut_fields:
  "get_proxy cut_chance demo_downloader = Inr None"
  "disk cut_chance p = Write_Cut 4"
  "encoded demo_library cut_chance ''x/a.png'' None = Inr ''JPEG:RGB''"
  by (simp_all add: cut_chance_def demo_chance_def demo_downloader_def get_proxy_def
      encoded_def demo_library_def canonical_colour_def)

lemma good_world_fields:
  "files good_world (file_path demo_library demo_downloader ''x/a.png'') = Some ''JPEG:RGB''"
  "events good_world = []"
  by (simp_all add: good_world_def)

lemma cut_run:
  "imgdl_download_image demo_library cut_chance demo_downloader good_world ''x/a.png'' True =
     (good_world\<lparr>files := (files good_world)
          (file_path demo_library demo_downloader ''x/a.png'' \<mapsto> ''JPEG''),
        events := [Get ''x/a.png'' None,
                   Write (file_path demo_library demo_downloader ''x/a.png'') ''JPEG'']\<rparr>,
      Inl PersistError)"
  by (simp add: imgdl_download_image_effect [OF cut_fields(1)] original_effect_def cut_fields
      good_world_fields Let_def)

lemma cut_run_keyed:
  "download_image demo_library cut_chance demo_downloader good_world ''x/a.png'' True =
     imgdl_download_image demo_library cut_chance demo_downloader good_world ''x/a.png'' True"
proof -
  obtain w' res where r:
    "download_image demo_library cut_chance demo_downloader good_world ''x/a.png'' True =
       (w', res)"
    by (cases "download_image demo_library cut_chance demo_downloader good_world ''x/a.png''
        True")
  from run_shape [OF cut_fields(1) disjI1, OF r] have
    "res = Inl PersistError \<and>
     w' = fst (original_effect demo_library cut_chance demo_downloader good_world ''x/a.png''
       True None)"
    by (auto simp: original_effect_def cut_fields Let_def)
  with r show ?thesis
    by (simp add: imgdl_download_image_effect [OF cut_fields(1)] original_effect_def cut_fields
      Let_def)
qed

text \<open>
  C4 as stated fails in its last clause, "no partial file is ever left": under
  \<open>force\<close>, with a good file in place, a write that is cut after the file was opened
  leaves the first four bytes of the new encoding where the old file was, and the call
  raises. The next call without \<open>force\<close> finds the path and returns it.
\<close>

theorem partial_file_counterexample:
  "files good_world (file_path demo_library demo_downloader ''x/a.png'') = Some ''JPEG:RGB'' \<and>
   encoded demo_library cut_chance ''x/a.png'' None = Inr ''JPEG:RGB'' \<and>
   snd (download_image demo_library cut_chance demo_downloader good_world ''x/a.png'' True) =
     Inl PersistError \<and>
   files (fst (download_image demo_library cut_chance demo_downloader good_world ''x/a.png''
      True)) (file_path demo_library demo_downloader ''x/a.png'') = Some ''JPEG'' \<and>
   snd (imgdl_download_image demo_library cut_chance demo_downloader good_world ''x/a.png''
      True) = Inl PersistError \<and>
   files (fst (imgdl_download_image demo_library cut_chance demo_downloader good_world
      ''x/a.png'' True)) (file_path demo_library demo_downloader ''x/a.png'') = Some ''JPEG'' \<and>
   snd (imgdl_download_image demo_library demo_chance demo_downloader
      (fst (imgdl_download_image demo_library cut_chance demo_downloader good_world ''x/a.png''
         True)) ''x/a.png'' False) = Inr (file_path demo_library demo_downloader ''x/a.png'')"
  by (simp add: cut_run_keyed cut_run cut_fields good_world_fields
      imgdl_download_image_effect [OF demo_get_proxy] original_effect_def Let_def)

text \<open>
  C4, amended. The file at \<open>file_path L d u\<close> is opened for writing only after the
  encode has succeeded in memory. When the fetch, the decode or the encode fails (or no
  proxy can be chosen), the call raises that error and no file is touched: the path is
  not created and, under \<open>force\<close>, an existing file keeps its contents. When the open
  is refused the file is as it was. Whenever the file changes or a write to it is
  logged, the whole buffer was encoded first; a write that completes leaves the buffer
  in the file, and a write that fails after the open leaves a prefix of the buffer in
  place of whatever was there, the call raising the write's error.
\<close>

theorem original_written_only_after_encode:
  assumes run: "download_image L ch d w u force = (w', res) \<or>
              imgdl_download_image L ch d w u force = (w', res)"
  shows "((files w (file_path L d u) = None \<or> force) \<and> get_proxy ch d = Inr proxy \<and>
          encoded L ch u proxy = Inl e \<longrightarrow>
            res = Inl e \<and> files w' = files w \<and>
            writes_to (file_path L d u) (events w') = writes_to (file_path L d u) (events w)) \<and>
         (files w' (file_path L d u) \<noteq> files w (file_path L d u) \<or>
          writes_to (file_path L d u) (events w') \<noteq> writes_to (file_path L d u) (events w) \<longrightarrow>
            (\<exists>px buf. get_proxy ch d = Inr px \<and> encoded L ch u px = Inr buf \<and>
               (disk ch (file_path L d u) = Written \<and> files w' (file_path L d u) = Some buf \<or>
                (\<exists>n. disk ch (file_path L d u) = Write_Cut n \<and>
                     files w' (file_path L d u) = Some (take n buf))))) \<and>
         (get_proxy ch d = Inl e \<longrightarrow>
            files w' (file_path L d u) = files w (file_path L d u) \<and>
            writes_to (file_path L d u) (events w') = writes_to (file_path L d u) (events w)) \<and>
         ((files w (file_path L d u) = None \<or> force) \<and> get_proxy ch d = Inr proxy \<and>
          encoded L ch u proxy = Inr b \<longrightarrow>
            (case disk ch (file_path L d u) of
               Written \<Rightarrow>
                 files w' (file_path L d u) = Some b \<and>
                 writes_to (file_path L d u) (events w') =
                   writes_to (file_path L d u) (events w) @ [b]
             | Open_Denied \<Rightarrow>
                 res = Inl PersistError \<and> files w' = files w \<and>
                 writes_to (file_path L d u) (events w') =
                   writes_to (file_path L d u) (events w)
             | Write_Cut n \<Rightarrow>
                 res = Inl PersistError \<and> files w' (file_path L d u) = Some (take n b) \<and>
                 writes_to (file_path L d u) (events w') =
                   writes_to (file_path L d u) (events w) @ [take n b]))"
proof (cases "get_proxy ch d")
  case (Inl x)
  from run_without_proxy [OF Inl run] Inl show ?thesis by simp
next
  case (Inr px)
  from run_shape [OF Inr run] obtain w1 err where
    e: "original_effect L ch d w u force px = (w1, err)" and
    f: "files w' (file_path L d u) = files w1 (file_path L d u)" and
    wr: "writes_to (file_path L d u) (events w') = writes_to (file_path L d u) (events w1)" and
    r: "case err of Some e \<Rightarrow> res = Inl e \<and> w' = w1
        | None \<Rightarrow> thumbs_size d = [] \<longrightarrow> res = Inr (file_path L d u) \<and> w' = w1"
    by blast
  show ?thesis
  proof (cases "files w (file_path L d u) = None \<or> force")
    case False
    with e f wr show ?thesis by (auto simp: original_effect_def)
  next
    case True
    show ?thesis
    proof (cases "encoded L ch u px")
      case (Inl x)
      with True e have "w1 = emit (Get u px) w" "err = Some x"
        by (auto simp: original_effect_def)
      with r f wr Inl Inr show ?thesis by (auto simp: emit_def writes_to_append)
    next
      case b: (Inr buf)
      show ?thesis
      proof (cases "disk ch (file_path L d u)")
        case Written
        with b True e f wr r Inr show ?thesis
          by (auto simp: original_effect_def emit_def writes_to_append Let_def)
      next
        case Open_Denied
        with b True e f wr r Inr show ?thesis
          by (auto simp: original_effect_def emit_def writes_to_append Let_def)
      next
        case (Write_Cut n)
        with b True e f wr r Inr show ?thesis
          by (auto simp: original_effect_def emit_def writes_to_append Let_def)
      qed
    qed
  qed
qed

theorem original_written_only_after_encode_witness:
  "download_image demo_library demo_chance demo_downloader stale_world ''x/bad'' True =
     (emit (Get ''x/bad'' None) stale_world, Inl DecodeError) \<and>
   (files stale_world (file_path demo_library demo_downloader ''x/bad'') = None \<or> True) \<and>
   get_proxy demo_chance demo_downloader = Inr None \<and>
   encoded demo_library demo_chance ''x/bad'' None = Inl DecodeError \<and>
   files (emit (Get ''x/bad'' None) stale_world) = files stale_world \<and>
   files stale_world (file_path demo_library demo_downloader ''x/bad'') = Some ''old'' \<and>
   get_proxy cut_chance demo_downloader = Inr None \<and>
   encoded demo_library cut_chance ''x/a.png'' None = Inr ''JPEG:RGB'' \<and>
   disk cut_chance (file_path demo_library demo_downloader ''x/a.png'') = Write_Cut 4 \<and>
   snd (imgdl_download_image demo_library cut_chance demo_downloader good_world ''x/a.png''
      True) = Inl PersistError \<and>
   files (fst (imgdl_download_image demo_library cut_chance demo_downloader good_world
      ''x/a.png'' True)) (file_path demo_library demo_downloader ''x/a.png'') =
     Some (take 4 ''JPEG:RGB'')"
  using original_written_only_after_encode [OF disjI1, OF demo_run_bad_forced,
      where e = DecodeError and proxy = None]
    original_written_only_after_encode [OF disjI2, OF cut_run,
      where proxy = None and b = "''JPEG:RGB''"]
  by (simp add: demo_get_proxy demo_run_bad_forced demo_encoded_bad demo_world_fields emit_def
      cut_fields cut_run)

section \<open>What the call returns for one URL\<close>

lemma download_image_skip:
  assumes "\<not> (files w (file_path L d u) = None \<or> force)"
  shows "download_image L ch d w u force =
     (case thumbs_loop L ch d u force (file_path L d u) (thumbs_size d) w [] None of
        (w2, Inl e) \<Rightarrow> (w2, Inl e)
      | (w2, Inr x) \<Rightarrow> (w2, Inr (file_path L d u)))"
  using assms by (auto simp: download_image_def original_step_def split: prod.splits sum.splits)

lemma download_image_stored:
  assumes "files w (file_path L d u) = None \<or> force"
    and "get_proxy ch d = Inr proxy"
    and "http_get ch u proxy = Some content"
    and "image_open L content = Some im"
    and "convert_image L [im] 0 None = (h, Inr (r, buf))"
    and "disk ch (file_path L d u) = Written"
  shows "download_image L ch d w u force =
     (case thumbs_loop L ch d u force (file_path L d u) (thumbs_size d)
             (w\<lparr>files := (files w)(file_path L d u \<mapsto> buf),
                events := events w @ [Get u proxy, Write (file_path L d u) buf,
                                     Sleep (uniform ch (min_wait d) (max_wait d))]\<rparr>)
             h (Some 0) of
        (w2, Inl e) \<Rightarrow> (w2, Inl e)
      | (w2, Inr x) \<Rightarrow> (w2, Inr (file_path L d u)))"
proof -
  have "original_step L ch d w u force =
          (w\<lparr>files := (files w)(file_path L d u \<mapsto> buf),
             events := events w @ [Get u proxy, Write (file_path L d u) buf,
                                  Sleep (uniform ch (min_wait d) (max_wait d))]\<rparr>,
           Inr (h, Some 0))"
    using assms
    by (auto simp: original_step_def fetch_original_def alloc_def persist_file_def emit_def
        Let_def)
  then show ?thesis
    by (simp add: download_image_def split: prod.splits sum.splits)
qed

lemma convert_image_encoded:
  assumes "http_get ch u proxy = Some content" "image_open L content = Some im"
    and "convert_image L [im] 0 None = (h, Inr (r, buf))"
  shows "encoded L ch u proxy = Inr buf"
proof -
  have "(0::nat) < length [im]" by simp
  from convert_image_run [OF this, of None L] assms show ?thesis
    by (auto simp: encoded_def canonical_output_def split: option.splits)
qed


lemma thumbs_fields:
  "get_proxy demo_chance thumbs_downloader = Inr None"
  "http_get demo_chance ''x/a.png'' None = Some ''rgba.png''"
  "disk demo_chance p = Written"
  "unit_draw demo_chance = 1 / 2" "min_wait thumbs_downloader = 1"
  "max_wait thumbs_downloader = 3"
  "thumbs_size thumbs_downloader = [(''100'', (100, 100)), (''200'', (200, 200))]"
  by (simp_all add: thumbs_downloader_def demo_chance_def demo_downloader_def get_proxy_def)

lemma demo_convert_png:
  "convert_image demo_library [demo_png] 0 None = (png_heap, Inr (2, ''JPEG:RGB''))"
  by (simp add: convert_image_def colour_step_def size_step_def Image_new_def paste_def
      convert_def alloc_def demo_library_fields demo_png_fields png_heap_def)

lemma thumbs_loop_demo:
  "\<exists>x. thumbs_loop demo_library demo_chance thumbs_downloader ''x/a.png'' False
     (file_path demo_library thumbs_downloader ''x/a.png'')
     [(''100'', (100, 100)), (''200'', (200, 200))] stored_png png_heap (Some 0) =
   (thumbs_done, Inr x)"
  by (simp add: thumb_step_def convert_image_def colour_step_def size_step_def copy_def
      thumbnail_def resized_def Image_new_def paste_def convert_def alloc_def persist_file_def
      emit_def thumbs_fields demo_library_fields demo_png_fields stored_png_fields png_heap_def
      thumb_path_inj thumbs_done_def Let_def)

lemma thumbs_run_ok:
  "download_image demo_library demo_chance thumbs_downloader demo_world ''x/a.png'' False =
     (thumbs_done, Inr (file_path demo_library thumbs_downloader ''x/a.png''))"
proof -
  have s: "demo_world\<lparr>files := (files demo_world)
              (file_path demo_library thumbs_downloader ''x/a.png'' \<mapsto> ''JPEG:RGB''),
            events := events demo_world @
              [Get ''x/a.png'' None,
               Write (file_path demo_library thumbs_downloader ''x/a.png'') ''JPEG:RGB'',
               Sleep (uniform demo_chance (min_wait thumbs_downloader)
                        (max_wait thumbs_downloader))]\<rparr> = stored_png"
    by (simp add: demo_world_def stored_png_def uniform_def thumbs_fields)
  have m: "files demo_world (file_path demo_library thumbs_downloader ''x/a.png'') = None \<or> False"
    by (simp add: demo_world_fields)
  from thumbs_loop_demo obtain x where
    "thumbs_loop demo_library demo_chance thumbs_downloader ''x/a.png'' False
       (file_path demo_library thumbs_downloader ''x/a.png'')
       [(''100'', (100, 100)), (''200'', (200, 200))] stored_png png_heap (Some 0) =
     (thumbs_done, Inr x)" by blast
  with download_image_stored [OF m thumbs_fields(1) thumbs_fields(2)
      demo_library_fields(1) demo_convert_png thumbs_fields(3)] s
  show ?thesis by (simp add: thumbs_fields)
qed

text \<open>
  C5 as stated fails: for a URL whose file is missing and whose fetch fails, the fetch
  is performed and the original is not persisted.
\<close>

theorem refetch_and_repersist_counterexample:
  "files demo_world (file_path demo_library demo_downloader ''x/down'') = None \<and>
   fetches (events (fst (download_image demo_library demo_chance demo_downloader demo_world
      ''x/down'' False))) = [(''x/down'', None)] \<and>
   writes_to (file_path demo_library demo_downloader ''x/down'')
     (events (fst (download_image demo_library demo_chance demo_downloader demo_world
        ''x/down'' False))) = [] \<and>
   files (fst (download_image demo_library demo_chance demo_downloader demo_world
      ''x/down'' False)) (file_path demo_library demo_downloader ''x/down'') = None \<and>
   \<not> ((fetches (events (fst (download_image demo_library demo_chance demo_downloader
           demo_world ''x/down'' False))) \<noteq> [] \<and>
        writes_to (file_path demo_library demo_downloader ''x/down'')
          (events (fst (download_image demo_library demo_chance demo_downloader demo_world
             ''x/down'' False))) \<noteq> []) =
       (files demo_world (file_path demo_library demo_downloader ''x/down'') = None \<or> False))"
  by (simp add: demo_run_down emit_def demo_world_fields)

lemma refetch_events:
  assumes p: "get_proxy ch d = Inr proxy"
    and run: "download_image L ch d w u force = (w', res) \<or>
              imgdl_download_image L ch d w u force = (w', res)"
  shows "fetches (events w') =
           fetches (events w) @
             (if files w (file_path L d u) = None \<or> force then [(u, proxy)] else []) \<and>
         writes_to (file_path L d u) (events w') =
           writes_to (file_path L d u) (events w) @
             (if files w (file_path L d u) = None \<or> force then
                (case encoded L ch u proxy of
                   Inl e \<Rightarrow> []
                 | Inr buf \<Rightarrow>
                    (case disk ch (file_path L d u) of
                       Written \<Rightarrow> [buf] | Open_Denied \<Rightarrow> [] | Write_Cut n \<Rightarrow> [take n buf]))
              else []) \<and>
         ((files w (file_path L d u) = None \<or> force) \<and> encoded L ch u proxy = Inr buf \<and>
          disk ch (file_path L d u) = Written \<longrightarrow>
            files w' (file_path L d u) = Some buf \<and>
            (thumbs_size d = [] \<longrightarrow> res = Inr (file_path L d u))) \<and>
         (\<not> (files w (file_path L d u) = None \<or> force) \<longrightarrow>
            files w' (file_path L d u) = files w (file_path L d u) \<and>
            (thumbs_size d = [] \<longrightarrow> res = Inr (file_path L d u) \<and> w' = w))"
proof -
  from run_shape [OF p run] obtain w1 err where
    e: "original_effect L ch d w u force proxy = (w1, err)" and
    f: "files w' (file_path L d u) = files w1 (file_path L d u)" and
    g: "fetches (events w') = fetches (events w1)" and
    wr: "writes_to (file_path L d u) (events w') = writes_to (file_path L d u) (events w1)" and
    r: "case err of Some e \<Rightarrow> res = Inl e \<and> w' = w1
        | None \<Rightarrow> thumbs_size d = [] \<longrightarrow> res = Inr (file_path L d u) \<and> w' = w1"
    by blast
  show ?thesis
  proof (cases "files w (file_path L d u) = None \<or> force")
    case False
    with e f g wr r show ?thesis by (auto simp: original_effect_def)
  next
    case True
    show ?thesis
    proof (cases "encoded L ch u proxy")
      case (Inl x)
      with True e have "w1 = emit (Get u proxy) w"
        by (auto simp: original_effect_def)
      with f g wr Inl True show ?thesis
        by (auto simp: emit_def writes_to_append fetches_append)
    next
      case (Inr b)
      with True e f g wr r show ?thesis
        by (cases "disk ch (file_path L d u)")
           (auto simp: original_effect_def emit_def writes_to_append fetches_append Let_def)
    qed
  qed
qed


text \<open>
  C5, amended. Once a proxy can be chosen, the GET for the URL is issued exactly when
  the file at \<open>file_path L d u\<close> is missing or \<open>force\<close> is set. In that case the
  original is written exactly when fetch, decode and encode succeed and the disk does not
  refuse the open, a completed write leaves the encoded buffer in the file, and an error
  of one of these steps is the error of the call. In the other case nothing is fetched
  and the file is not touched. After a skip or a completed store, \<open>imgdl\<close> returns the
  stored path, and \<open>imagedownloader\<close> goes through the thumbnail specs and returns the
  stored path exactly when none of them raises (the error of the one that raises
  otherwise).
\<close>

theorem refetch_iff_missing_or_forced:
  assumes p: "get_proxy ch d = Inr proxy"
    and run: "download_image L ch d w u force = (w', res) \<or>
              imgdl_download_image L ch d w u force = (w', res)"
  shows "fetches (events w') =
           fetches (events w) @
             (if files w (file_path L d u) = None \<or> force then [(u, proxy)] else []) \<and>
         writes_to (file_path L d u) (events w') =
           writes_to (file_path L d u) (events w) @
             (if files w (file_path L d u) = None \<or> force then
                (case encoded L ch u proxy of
                   Inl e \<Rightarrow> []
                 | Inr buf \<Rightarrow>
                    (case disk ch (file_path L d u) of
                       Written \<Rightarrow> [buf] | Open_Denied \<Rightarrow> [] | Write_Cut n \<Rightarrow> [take n buf]))
              else []) \<and>
         ((files w (file_path L d u) = None \<or> force) \<and> encoded L ch u proxy = Inr buf \<and>
          disk ch (file_path L d u) = Written \<longrightarrow>
            files w' (file_path L d u) = Some buf \<and>
            (thumbs_size d = [] \<longrightarrow> res = Inr (file_path L d u))) \<and>
         (\<not> (files w (file_path L d u) = None \<or> force) \<longrightarrow>
            files w' (file_path L d u) = files w (file_path L d u) \<and>
            (thumbs_size d = [] \<longrightarrow> res = Inr (file_path L d u) \<and> w' = w)) \<and>
         ((files w (file_path L d u) = None \<or> force) \<and> encoded L ch u proxy = Inl e \<longrightarrow>
            res = Inl e) \<and>
         ((files w (file_path L d u) = None \<or> force) \<and> encoded L ch u proxy = Inr buf \<and>
          disk ch (file_path L d u) \<noteq> Written \<longrightarrow>
            res = Inl PersistError) \<and>
         (imgdl_download_image L ch d w u force = (w', res) \<and>
          (\<not> (files w (file_path L d u) = None \<or> force) \<or>
           encoded L ch u proxy = Inr buf \<and> disk ch (file_path L d u) = Written) \<longrightarrow>
            res = Inr (file_path L d u)) \<and>
         (download_image L ch d w u force = (w', res) \<and>
          \<not> (files w (file_path L d u) = None \<or> force) \<longrightarrow>
            (w', res) =
              (case thumbs_loop L ch d u force (file_path L d u) (thumbs_size d) w [] None of
                 (w2, Inl e) \<Rightarrow> (w2, Inl e)
               | (w2, Inr x) \<Rightarrow> (w2, Inr (file_path L d u)))) \<and>
         (download_image L ch d w u force = (w', res) \<and>
          (files w (file_path L d u) = None \<or> force) \<and>
          http_get ch u proxy = Some content \<and> image_open L content = Some im \<and>
          convert_image L [im] 0 None = (h, Inr (r, buf)) \<and>
          disk ch (file_path L d u) = Written \<longrightarrow>
            (w', res) =
              (case thumbs_loop L ch d u force (file_path L d u) (thumbs_size d)
                      (w\<lparr>files := (files w)(file_path L d u \<mapsto> buf),
                         events := events w @
                           [Get u proxy, Write (file_path L d u) buf,
                            Sleep (uniform ch (min_wait d) (max_wait d))]\<rparr>)
                      h (Some 0) of
                 (w2, Inl e) \<Rightarrow> (w2, Inl e)
               | (w2, Inr x) \<Rightarrow> (w2, Inr (file_path L d u))))"
proof -
  note ev = refetch_events [OF p run, of buf]
  from run_shape [OF p run] obtain w1 err where
    e: "original_effect L ch d w u force proxy = (w1, err)" and
    r: "case err of Some e \<Rightarrow> res = Inl e \<and> w' = w1
        | None \<Rightarrow> thumbs_size d = [] \<longrightarrow> res = Inr (file_path L d u) \<and> w' = w1"
    by blast
  have f1: "(files w (file_path L d u) = None \<or> force) \<and> encoded L ch u proxy = Inl e \<longrightarrow>
            res = Inl e"
    using e r by (auto simp: original_effect_def Let_def)
  have f2: "(files w (file_path L d u) = None \<or> force) \<and> encoded L ch u proxy = Inr buf \<and>
          disk ch (file_path L d u) \<noteq> Written \<longrightarrow> res = Inl PersistError"
    using e r by (cases "disk ch (file_path L d u)") (auto simp: original_effect_def Let_def)
  have f3: "imgdl_download_image L ch d w u force = (w', res) \<and>
          (\<not> (files w (file_path L d u) = None \<or> force) \<or>
           encoded L ch u proxy = Inr buf \<and> disk ch (file_path L d u) = Written) \<longrightarrow>
            res = Inr (file_path L d u)"
    using imgdl_download_image_effect [OF p, of L w u force]
    by (auto simp: original_effect_def Let_def)
  have f4: "download_image L ch d w u force = (w', res) \<and>
          \<not> (files w (file_path L d u) = None \<or> force) \<longrightarrow>
            (w', res) =
              (case thumbs_loop L ch d u force (file_path L d u) (thumbs_size d) w [] None of
                 (w2, Inl e) \<Rightarrow> (w2, Inl e)
               | (w2, Inr x) \<Rightarrow> (w2, Inr (file_path L d u)))"
    using download_image_skip [of w L d u force ch] by auto
  have f5: "download_image L ch d w u force = (w', res) \<and>
          (files w (file_path L d u) = None \<or> force) \<and>
          http_get ch u proxy = Some content \<and> image_open L content = Some im \<and>
          convert_image L [im] 0 None = (h, Inr (r, buf)) \<and>
          disk ch (file_path L d u) = Written \<longrightarrow>
            (w', res) =
              (case thumbs_loop L ch d u force (file_path L d u) (thumbs_size d)
                      (w\<lparr>files := (files w)(file_path L d u \<mapsto> buf),
                         events := events w @
                           [Get u proxy, Write (file_path L d u) buf,
                            Sleep (uniform ch (min_wait d) (max_wait d))]\<rparr>)
                      h (Some 0) of
                 (w2, Inl e) \<Rightarrow> (w2, Inl e)
               | (w2, Inr x) \<Rightarrow> (w2, Inr (file_path L d u)))"
    using download_image_stored [OF _ p, of w L u force content im h r buf] by auto
  from ev f1 f2 f3 f4 f5 show ?thesis by blast
qed

theorem refetch_iff_missing_or_forced_witness:
  "get_proxy demo_chance demo_downloader = Inr None \<and>
   download_image demo_library demo_chance demo_downloader demo_world ''x/a.png'' False =
     (\<lparr>files = [file_path demo_library demo_downloader ''x/a.png'' \<mapsto> ''JPEG:RGB''],
       events = [Get ''x/a.png'' None,
                 Write (file_path demo_library demo_downloader ''x/a.png'') ''JPEG:RGB'',
                 Sleep 2]\<rparr>,
      Inr (file_path demo_library demo_downloader ''x/a.png'')) \<and>
   files demo_world (file_path demo_library demo_downloader ''x/a.png'') = None \<and>
   encoded demo_library demo_chance ''x/a.png'' None = Inr ''JPEG:RGB'' \<and>
   disk demo_chance (file_path demo_library demo_downloader ''x/a.png'') = Written \<and>
   thumbs_size demo_downloader = [] \<and>
   get_proxy demo_chance thumbs_downloader = Inr None \<and>
   (files demo_world (file_path demo_library thumbs_downloader ''x/a.png'') = None \<or> False) \<and>
   http_get demo_chance ''x/a.png'' None = Some ''rgba.png'' \<and>
   image_open demo_library ''rgba.png'' = Some demo_png \<and>
   convert_image demo_library [demo_png] 0 None = (png_heap, Inr (2, ''JPEG:RGB'')) \<and>
   download_image demo_library demo_chance thumbs_downloader demo_world ''x/a.png'' False =
     (thumbs_done, Inr (file_path demo_library thumbs_downloader ''x/a.png''))"
  using refetch_iff_missing_or_forced [OF demo_get_proxy disjI1, OF demo_run_png,
      where buf = "''JPEG:RGB''"]
    refetch_iff_missing_or_forced [OF thumbs_fields(1) disjI1, OF thumbs_run_ok,
      where buf = "''JPEG:RGB''" and content = "''rgba.png''" and im = demo_png
      and h = png_heap and r = 2]
  by (simp add: demo_get_proxy demo_run_png demo_encoded_png demo_fields demo_world_fields
      thumbs_fields demo_library_fields demo_convert_png thumbs_run_ok)

lemma call_single_url_errors:
  "call L chs order d w (Url u) force =
     (case download_image L (chs 0) d w u force of
        (w1, Inl e) \<Rightarrow> (w1, Inl e) | (w1, Inr q) \<Rightarrow> (w1, Inr (One q))) \<and>
   imgdl_call L chs order d w (Url u) force =
     (case imgdl_download_image L (chs 0) d w u force of
        (w1, Inl e) \<Rightarrow> (w1, Inl e) | (w1, Inr q) \<Rightarrow> (w1, Inr (One q))) \<and>
   ((\<exists>err. snd (call L chs order d w (Url u) force) = Inl err) \<or>
    snd (call L chs order d w (Url u) force) = Inr (One (file_path L d u))) \<and>
   ((\<exists>err. snd (imgdl_call L chs order d w (Url u) force) = Inl err) \<or>
    snd (imgdl_call L chs order d w (Url u) force) = Inr (One (file_path L d u))) \<and>
   ((files w (file_path L d u) = None \<or> force) \<and> get_proxy (chs 0) d = Inr proxy \<and>
    encoded L (chs 0) u proxy = Inl e \<longrightarrow>
      snd (call L chs order d w (Url u) force) = Inl e \<and>
      snd (imgdl_call L chs order d w (Url u) force) = Inl e) \<and>
   ((files w (file_path L d u) = None \<or> force) \<and> get_proxy (chs 0) d = Inr proxy \<and>
    encoded L (chs 0) u proxy = Inr buf \<and> disk (chs 0) (file_path L d u) \<noteq> Written \<longrightarrow>
      snd (call L chs order d w (Url u) force) = Inl PersistError \<and>
      snd (imgdl_call L chs order d w (Url u) force) = Inl PersistError)"
proof -
  obtain w1 r1 where a: "download_image L (chs 0) d w u force = (w1, r1)"
    by (cases "download_image L (chs 0) d w u force")
  obtain w2 r2 where b: "imgdl_download_image L (chs 0) d w u force = (w2, r2)"
    by (cases "imgdl_download_image L (chs 0) d w u force")
  have ca: "call L chs order d w (Url u) force =
              (w1, case r1 of Inl e \<Rightarrow> Inl e | Inr q \<Rightarrow> Inr (One q))"
    using a by (simp add: call_def split: sum.splits)
  have cb: "imgdl_call L chs order d w (Url u) force =
              (w2, case r2 of Inl e \<Rightarrow> Inl e | Inr q \<Rightarrow> Inr (One q))"
    using b by (simp add: imgdl_call_def split: sum.splits)
  have pa: "(\<exists>err. r1 = Inl err) \<or> r1 = Inr (file_path L d u)"
    using download_image_path [of L "chs 0" d w u force w1] a by (cases r1) auto
  have pb: "(\<exists>err. r2 = Inl err) \<or> r2 = Inr (file_path L d u)"
    using imgdl_download_image_path [of L "chs 0" d w u force w2] b by (cases r2) auto
  have f: "(encoded L (chs 0) u proxy = Inl e \<longrightarrow> r1 = Inl e \<and> r2 = Inl e) \<and>
           (encoded L (chs 0) u proxy = Inr buf \<and> disk (chs 0) (file_path L d u) \<noteq> Written \<longrightarrow>
              r1 = Inl PersistError \<and> r2 = Inl PersistError)"
    if p: "get_proxy (chs 0) d = Inr proxy" and miss: "files w (file_path L d u) = None \<or> force"
  proof -
    from run_shape [OF p disjI1, OF a] obtain wa ea where
      ea: "original_effect L (chs 0) d w u force proxy = (wa, ea)" and
      ra: "case ea of Some e \<Rightarrow> r1 = Inl e \<and> w1 = wa
           | None \<Rightarrow> thumbs_size d = [] \<longrightarrow> r1 = Inr (file_path L d u) \<and> w1 = wa"
      by blast
    from run_shape [OF p disjI2, OF b] ea have
      rb: "case ea of Some e \<Rightarrow> r2 = Inl e \<and> w2 = wa
           | None \<Rightarrow> thumbs_size d = [] \<longrightarrow> r2 = Inr (file_path L d u) \<and> w2 = wa"
      by auto
    have f1: "encoded L (chs 0) u proxy = Inl e \<longrightarrow> r1 = Inl e \<and> r2 = Inl e"
      using ea ra rb miss by (auto simp: original_effect_def Let_def)
    have f2: "encoded L (chs 0) u proxy = Inr buf \<and> disk (chs 0) (file_path L d u) \<noteq> Written \<longrightarrow>
                r1 = Inl PersistError \<and> r2 = Inl PersistError"
      using ea ra rb miss
      by (cases "disk (chs 0) (file_path L d u)") (auto simp: original_effect_def Let_def)
    from f1 f2 show ?thesis by blast
  qed
  show ?thesis
    using a b ca cb pa pb f by (auto split: sum.splits)
qed


text \<open>
  C10. For a bare string the call operator hands back what the single download gives:
  the stored path itself, never a mapping, and an error of the download as an error of
  the call. When the file is missing or forced and the fetch, decode or encode fails,
  or the write fails, the call raises that error. After a skip or a completed store,
  \<open>imgdl\<close>'s call returns the stored path, and \<open>imagedownloader\<close>'s call returns the
  stored path exactly when no thumbnail spec raises, and raises that spec's error
  otherwise.
\<close>

theorem call_single_url_propagates:
  "call L chs order d w (Url u) force =
     (case download_image L (chs 0) d w u force of
        (w1, Inl e) \<Rightarrow> (w1, Inl e) | (w1, Inr q) \<Rightarrow> (w1, Inr (One q))) \<and>
   imgdl_call L chs order d w (Url u) force =
     (case imgdl_download_image L (chs 0) d w u force of
        (w1, Inl e) \<Rightarrow> (w1, Inl e) | (w1, Inr q) \<Rightarrow> (w1, Inr (One q))) \<and>
   ((\<exists>err. snd (call L chs order d w (Url u) force) = Inl err) \<or>
    snd (call L chs order d w (Url u) force) = Inr (One (file_path L d u))) \<and>
   ((\<exists>err. snd (imgdl_call L chs order d w (Url u) force) = Inl err) \<or>
    snd (imgdl_call L chs order d w (Url u) force) = Inr (One (file_path L d u))) \<and>
   ((files w (file_path L d u) = None \<or> force) \<and> get_proxy (chs 0) d = Inr proxy \<and>
    encoded L (chs 0) u proxy = Inl e \<longrightarrow>
      snd (call L chs order d w (Url u) force) = Inl e \<and>
      snd (imgdl_call L chs order d w (Url u) force) = Inl e) \<and>
   ((files w (file_path L d u) = None \<or> force) \<and> get_proxy (chs 0) d = Inr proxy \<and>
    encoded L (chs 0) u proxy = Inr buf \<and> disk (chs 0) (file_path L d u) \<noteq> Written \<longrightarrow>
      snd (call L chs order d w (Url u) force) = Inl PersistError \<and>
      snd (imgdl_call L chs order d w (Url u) force) = Inl PersistError) \<and>
   (get_proxy (chs 0) d = Inr proxy \<and>
    (\<not> (files w (file_path L d u) = None \<or> force) \<or>
     encoded L (chs 0) u proxy = Inr buf \<and> disk (chs 0) (file_path L d u) = Written) \<longrightarrow>
      snd (imgdl_call L chs order d w (Url u) force) = Inr (One (file_path L d u))) \<and>
   (\<not> (files w (file_path L d u) = None \<or> force) \<longrightarrow>
      call L chs order d w (Url u) force =
        (case thumbs_loop L (chs 0) d u force (file_path L d u) (thumbs_size d) w [] None of
           (w2, Inl e) \<Rightarrow> (w2, Inl e)
         | (w2, Inr x) \<Rightarrow> (w2, Inr (One (file_path L d u))))) \<and>
   ((files w (file_path L d u) = None \<or> force) \<and> get_proxy (chs 0) d = Inr proxy \<and>
    http_get (chs 0) u proxy = Some content \<and> image_open L content = Some im \<and>
    convert_image L [im] 0 None = (h, Inr (r, buf)) \<and>
    disk (chs 0) (file_path L d u) = Written \<longrightarrow>
      call L chs order d w (Url u) force =
        (case thumbs_loop L (chs 0) d u force (file_path L d u) (thumbs_size d)
                (w\<lparr>files := (files w)(file_path L d u \<mapsto> buf),
                   events := events w @
                     [Get u proxy, Write (file_path L d u) buf,
                      Sleep (uniform (chs 0) (min_wait d) (max_wait d))]\<rparr>)
                h (Some 0) of
           (w2, Inl e) \<Rightarrow> (w2, Inl e)
         | (w2, Inr x) \<Rightarrow> (w2, Inr (One (file_path L d u)))))"
proof -
  note old = call_single_url_errors [of L chs order d w u force proxy e buf]
  have g1: "get_proxy (chs 0) d = Inr proxy \<and>
    (\<not> (files w (file_path L d u) = None \<or> force) \<or>
     encoded L (chs 0) u proxy = Inr buf \<and> disk (chs 0) (file_path L d u) = Written) \<longrightarrow>
      snd (imgdl_call L chs order d w (Url u) force) = Inr (One (file_path L d u))"
  proof
    assume a: "get_proxy (chs 0) d = Inr proxy \<and>
      (\<not> (files w (file_path L d u) = None \<or> force) \<or>
       encoded L (chs 0) u proxy = Inr buf \<and> disk (chs 0) (file_path L d u) = Written)"
    then have p: "get_proxy (chs 0) d = Inr proxy" by simp
    from a imgdl_download_image_effect [OF p, of L w u force]
    show "snd (imgdl_call L chs order d w (Url u) force) = Inr (One (file_path L d u))"
      by (auto simp: imgdl_call_def original_effect_def Let_def)
  qed
  have g2: "\<not> (files w (file_path L d u) = None \<or> force) \<longrightarrow>
      call L chs order d w (Url u) force =
        (case thumbs_loop L (chs 0) d u force (file_path L d u) (thumbs_size d) w [] None of
           (w2, Inl e) \<Rightarrow> (w2, Inl e)
         | (w2, Inr x) \<Rightarrow> (w2, Inr (One (file_path L d u))))"
    using download_image_skip [of w L d u force "chs 0"]
    by (auto simp: call_def split: prod.splits sum.splits)
  have g3: "(files w (file_path L d u) = None \<or> force) \<and> get_proxy (chs 0) d = Inr proxy \<and>
    http_get (chs 0) u proxy = Some content \<and> image_open L content = Some im \<and>
    convert_image L [im] 0 None = (h, Inr (r, buf)) \<and>
    disk (chs 0) (file_path L d u) = Written \<longrightarrow>
      call L chs order d w (Url u) force =
        (case thumbs_loop L (chs 0) d u force (file_path L d u) (thumbs_size d)
                (w\<lparr>files := (files w)(file_path L d u \<mapsto> buf),
                   events := events w @
                     [Get u proxy, Write (file_path L d u) buf,
                      Sleep (uniform (chs 0) (min_wait d) (max_wait d))]\<rparr>)
                h (Some 0) of
           (w2, Inl e) \<Rightarrow> (w2, Inl e)
         | (w2, Inr x) \<Rightarrow> (w2, Inr (One (file_path L d u))))"
  proof
    assume a: "(files w (file_path L d u) = None \<or> force) \<and> get_proxy (chs 0) d = Inr proxy \<and>
      http_get (chs 0) u proxy = Some content \<and> image_open L content = Some im \<and>
      convert_image L [im] 0 None = (h, Inr (r, buf)) \<and>
      disk (chs 0) (file_path L d u) = Written"
    then have "download_image L (chs 0) d w u force =
      (case thumbs_loop L (chs 0) d u force (file_path L d u) (thumbs_size d)
                (w\<lparr>files := (files w)(file_path L d u \<mapsto> buf),
                   events := events w @
                     [Get u proxy, Write (file_path L d u) buf,
                      Sleep (uniform (chs 0) (min_wait d) (max_wait d))]\<rparr>)
                h (Some 0) of
           (w2, Inl e) \<Rightarrow> (w2, Inl e)
         | (w2, Inr x) \<Rightarrow> (w2, Inr (file_path L d u)))"
      using download_image_stored [of w L d u force "chs 0" proxy content im h r buf] by blast
    then show "call L chs order d w (Url u) force =
        (case thumbs_loop L (chs 0) d u force (file_path L d u) (thumbs_size d)
                (w\<lparr>files := (files w)(file_path L d u \<mapsto> buf),
                   events := events w @
                     [Get u proxy, Write (file_path L d u) buf,
                      Sleep (uniform (chs 0) (min_wait d) (max_wait d))]\<rparr>)
                h (Some 0) of
           (w2, Inl e) \<Rightarrow> (w2, Inl e)
         | (w2, Inr x) \<Rightarrow> (w2, Inr (One (file_path L d u))))"
      by (simp add: call_def split: prod.splits sum.splits)
  qed
  from old g1 g2 g3 show ?thesis by blast
qed

theorem call_single_url_propagates_witness:
  "(files demo_world (file_path demo_library demo_downloader ''x/bad'') = None \<or> False) \<and>
   get_proxy demo_chance demo_downloader = Inr None \<and>
   encoded demo_library demo_chance ''x/bad'' None = Inl DecodeError \<and>
   snd (call demo_library (\<lambda>i. demo_chance) [] demo_downloader demo_world (Url ''x/bad'') False) =
     Inl DecodeError \<and>
   snd (imgdl_call demo_library (\<lambda>i. demo_chance) [] demo_downloader demo_world (Url ''x/bad'')
          False) = Inl DecodeError \<and>
   (files demo_world (file_path demo_library thumbs_downloader ''x/a.png'') = None \<or> False) \<and>
   get_proxy demo_chance thumbs_downloader = Inr None \<and>
   http_get demo_chance ''x/a.png'' None = Some ''rgba.png'' \<and>
   image_open demo_library ''rgba.png'' = Some demo_png \<and>
   convert_image demo_library [demo_png] 0 None = (png_heap, Inr (2, ''JPEG:RGB'')) \<and>
   disk demo_chance (file_path demo_library thumbs_downloader ''x/a.png'') = Written \<and>
   encoded demo_library demo_chance ''x/a.png'' None = Inr ''JPEG:RGB'' \<and>
   call demo_library (\<lambda>i. demo_chance) [] thumbs_downloader demo_world (Url ''x/a.png'') False =
     (thumbs_done, Inr (One (file_path demo_library thumbs_downloader ''x/a.png''))) \<and>
   snd (imgdl_call demo_library (\<lambda>i. demo_chance) [] thumbs_downloader demo_world
          (Url ''x/a.png'') False) =
     Inr (One (file_path demo_library thumbs_downloader ''x/a.png''))"
proof -
  have a: "get_proxy demo_chance demo_downloader = Inr None" by (rule demo_get_proxy)
  have b: "files demo_world (file_path demo_library demo_downloader ''x/bad'') = None \<or> False"
    by (simp add: demo_world_fields)
  note t = call_single_url_propagates [where chs = "\<lambda>i. demo_chance" and d = demo_downloader
      and proxy = None and w = demo_world and L = demo_library and u = "''x/bad''"
      and force = False and e = DecodeError and order = "[]"]
  from t a b demo_encoded_bad have bad:
    "snd (call demo_library (\<lambda>i. demo_chance) [] demo_downloader demo_world (Url ''x/bad'')
            False) = Inl DecodeError \<and>
     snd (imgdl_call demo_library (\<lambda>i. demo_chance) [] demo_downloader demo_world
            (Url ''x/bad'') False) = Inl DecodeError"
    by blast
  have c: "files demo_world (file_path demo_library thumbs_downloader ''x/a.png'') = None \<or> False"
    by (simp add: demo_world_fields)
  note k = call_single_url_propagates [where chs = "\<lambda>i. demo_chance" and d = thumbs_downloader
      and proxy = None and w = demo_world and L = demo_library and u = "''x/a.png''"
      and force = False and order = "[]" and buf = "''JPEG:RGB''" and content = "''rgba.png''"
      and im = demo_png and h = png_heap and r = 2]
  from k c thumbs_fields(1) demo_encoded_png thumbs_fields(3) have good1:
    "snd (imgdl_call demo_library (\<lambda>i. demo_chance) [] thumbs_downloader demo_world
          (Url ''x/a.png'') False) =
     Inr (One (file_path demo_library thumbs_downloader ''x/a.png''))"
    by blast
  have good2:
    "call demo_library (\<lambda>i. demo_chance) [] thumbs_downloader demo_world (Url ''x/a.png'') False =
     (thumbs_done, Inr (One (file_path demo_library thumbs_downloader ''x/a.png'')))"
    by (simp add: call_def thumbs_run_ok)
  from a b demo_encoded_bad bad c thumbs_fields(1,2,3) demo_library_fields(1) demo_convert_png
    demo_encoded_png good1 good2
  show ?thesis by blast
qed

section \<open>Tasks keep to their own files\<close>

lemma persist_file_closed:
  "persist_file ch w p buf =
     (case disk ch p of
        Written \<Rightarrow> (w\<lparr>files := (files w)(p \<mapsto> buf), events := events w @ [Write p buf]\<rparr>, Inr ())
      | Open_Denied \<Rightarrow> (w, Inl PersistError)
      | Write_Cut n \<Rightarrow>
          (w\<lparr>files := (files w)(p \<mapsto> take n buf), events := events w @ [Write p (take n buf)]\<rparr>,
           Inl PersistError))"
  by (cases "disk ch p") (simp_all add: persist_file_def emit_def)

lemma fetch_original_closed:
  "fetch_original L ch d w u p proxy =
     (case encoded L ch u proxy of
        Inl e \<Rightarrow> (emit (Get u proxy) w, Inl e)
      | Inr buf \<Rightarrow>
         (case disk ch p of
            Written \<Rightarrow>
              (w\<lparr>files := (files w)(p \<mapsto> buf),
                 events := events w @ [Get u proxy, Write p buf,
                                      Sleep (uniform ch (min_wait d) (max_wait d))]\<rparr>,
               Inr (fetched_heap L ch u proxy, 0))
          | Open_Denied \<Rightarrow> (emit (Get u proxy) w, Inl PersistError)
          | Write_Cut n \<Rightarrow>
              (w\<lparr>files := (files w)(p \<mapsto> take n buf),
                 events := events w @ [Get u proxy, Write p (take n buf)]\<rparr>,
               Inl PersistError)))"
proof (cases "http_get ch u proxy")
  case None
  then show ?thesis by (simp add: fetch_original_def encoded_def)
next
  case (Some content)
  note c = this
  show ?thesis
  proof (cases "image_open L content")
    case None
    with c show ?thesis by (simp add: fetch_original_def encoded_def)
  next
    case (Some im)
    have "(0::nat) < length [im]" by simp
    from convert_image_run [OF this, of None L] obtain h' r where
      r: "convert_image L [im] 0 None =
           (h', case image_save L (canonical_colour im) ''JPEG'' of
                  None \<Rightarrow> Inl EncodeError | Some buf \<Rightarrow> Inr (r, buf))"
      by (auto simp: canonical_output_def)
    have fh: "fetched_heap L ch u proxy = h'"
      using c Some r by (simp add: fetched_heap_def)
    show ?thesis
    proof (cases "image_save L (canonical_colour im) ''JPEG''")
      case None
      with c Some r show ?thesis
        by (simp add: fetch_original_def encoded_def alloc_def)
    next
      case (Some buf)
      with c \<open>image_open L content = Some im\<close> r fh show ?thesis
        by (cases "disk ch p")
           (simp_all add: fetch_original_def encoded_def alloc_def persist_file_def emit_def)
    qed
  qed
qed

lemma thumb_step_closed:
  "thumb_step L ch d u force p spec w h orig =
     (if files w (thumb_path L d u (fst spec)) = None \<or> force then
        (case thumb_plan L (files w p) (snd spec) h orig of
           Inl e \<Rightarrow> (w, Inl e)
         | Inr (h2, r, tb) \<Rightarrow>
            (case disk ch (thumb_path L d u (fst spec)) of
               Written \<Rightarrow>
                 (w\<lparr>files := (files w)(thumb_path L d u (fst spec) \<mapsto> tb),
                    events := events w @ [Write (thumb_path L d u (fst spec)) tb]\<rparr>,
                  Inr (h2, Some r))
             | Open_Denied \<Rightarrow> (w, Inl PersistError)
             | Write_Cut n \<Rightarrow>
                 (w\<lparr>files := (files w)(thumb_path L d u (fst spec) \<mapsto> take n tb),
                    events := events w @ [Write (thumb_path L d u (fst spec)) (take n tb)]\<rparr>,
                  Inl PersistError)))
      else (w, Inr (h, orig)))"
proof (cases "files w (thumb_path L d u (fst spec)) = None \<or> force")
  case False
  then show ?thesis by (auto simp: thumb_step_def Let_def)
next
  case True
  let ?src = "case orig of
                Some r \<Rightarrow> Inr (h, r)
              | None \<Rightarrow>
                 (case files w p of
                    None \<Rightarrow> Inl FileNotFoundError
                  | Some content \<Rightarrow>
                     (case image_open L content of
                        None \<Rightarrow> Inl DecodeError
                      | Some im \<Rightarrow> Inr (alloc h im)))"
  show ?thesis
  proof (cases ?src)
    case (Inl e)
    with True show ?thesis by (auto simp: thumb_step_def thumb_plan_def Let_def)
  next
    case (Inr hr)
    obtain h1 r where hr: "hr = (h1, r)" by (cases hr)
    obtain h2 cr where c: "convert_image L h1 r (Some (snd spec)) = (h2, cr)"
      by (cases "convert_image L h1 r (Some (snd spec))")
    show ?thesis
    proof (cases cr)
      case (Inl e)
      with True Inr hr c show ?thesis by (auto simp: thumb_step_def thumb_plan_def Let_def)
    next
      case ok: (Inr tt)
      obtain ti tb where "tt = (ti, tb)" by (cases tt)
      with True Inr hr c ok show ?thesis
        by (cases "disk ch (thumb_path L d u (fst spec))")
           (auto simp: thumb_step_def thumb_plan_def persist_file_def emit_def Let_def)
    qed
  qed
qed


lemma thumb_step_sim:
  assumes "files w p = files v p"
    and "files w (thumb_path L d u (fst spec)) = files v (thumb_path L d u (fst spec))"
  shows "snd (thumb_step L ch d u force p spec w h orig) =
         snd (thumb_step L ch d u force p spec v h orig) \<and>
         (\<forall>x. files w x = files v x \<longrightarrow>
            files (fst (thumb_step L ch d u force p spec w h orig)) x =
            files (fst (thumb_step L ch d u force p spec v h orig)) x)"
  using assms
  by (cases "thumb_plan L (files v p) (snd spec) h orig";
      cases "disk ch (thumb_path L d u (fst spec))")
     (auto simp: thumb_step_closed)

lemma thumb_step_files:
  assumes "q \<noteq> thumb_path L d u (fst spec)"
  shows "files (fst (thumb_step L ch d u force p spec w h orig)) q = files w q"
  using assms
  by (cases "thumb_plan L (files w p) (snd spec) h orig";
      cases "disk ch (thumb_path L d u (fst spec))")
     (auto simp: thumb_step_closed)

lemma thumbs_loop_sim:
  assumes "files w p = files v p"
    and "\<forall>spec \<in> set specs.
           files w (thumb_path L d u (fst spec)) = files v (thumb_path L d u (fst spec))"
  shows "snd (thumbs_loop L ch d u force p specs w h orig) =
         snd (thumbs_loop L ch d u force p specs v h orig) \<and>
         (\<forall>x. files w x = files v x \<longrightarrow>
            files (fst (thumbs_loop L ch d u force p specs w h orig)) x =
            files (fst (thumbs_loop L ch d u force p specs v h orig)) x)"
  using assms
proof (induction specs arbitrary: w v h orig)
  case Nil
  then show ?case by simp
next
  case (Cons spec rest)
  obtain w1 r1 where a: "thumb_step L ch d u force p spec w h orig = (w1, r1)"
    by (cases "thumb_step L ch d u force p spec w h orig")
  obtain v1 s1 where b: "thumb_step L ch d u force p spec v h orig = (v1, s1)"
    by (cases "thumb_step L ch d u force p spec v h orig")
  have t: "files w (thumb_path L d u (fst spec)) = files v (thumb_path L d u (fst spec))"
    using Cons.prems(2) by simp
  from thumb_step_sim [OF Cons.prems(1) t, where ch = ch and force = force and h = h
      and orig = orig] a b have
    eq: "s1 = r1" and pw: "\<forall>x. files w x = files v x \<longrightarrow> files w1 x = files v1 x"
    by simp_all
  show ?case
  proof (cases r1)
    case (Inl e)
    with a b eq pw show ?thesis by simp
  next
    case (Inr st)
    obtain h1 orig1 where st: "st = (h1, orig1)" by (cases st)
    have p1: "files w1 p = files v1 p" using pw Cons.prems(1) by simp
    have t1: "\<forall>spec \<in> set rest.
           files w1 (thumb_path L d u (fst spec)) = files v1 (thumb_path L d u (fst spec))"
      using pw Cons.prems(2) by simp
    from Cons.IH [OF p1 t1, where h = h1 and orig = orig1] a b eq Inr st pw show ?thesis by simp
  qed
qed

lemma thumbs_loop_files:
  assumes "q \<notin> set (map (\<lambda>spec. thumb_path L d u (fst spec)) specs)"
  shows "files (fst (thumbs_loop L ch d u force p specs w h orig)) q = files w q"
  using assms
proof (induction specs arbitrary: w h orig)
  case Nil
  then show ?case by simp
next
  case (Cons spec rest)
  obtain w1 r1 where a: "thumb_step L ch d u force p spec w h orig = (w1, r1)"
    by (cases "thumb_step L ch d u force p spec w h orig")
  from Cons.prems have ne: "q \<noteq> thumb_path L d u (fst spec)"
    and nr: "q \<notin> set (map (\<lambda>spec. thumb_path L d u (fst spec)) rest)" by auto
  from thumb_step_files [OF ne, where ch = ch and force = force and p = p and w = w
      and h = h and orig = orig] a have f: "files w1 q = files w q"
    by simp
  show ?case
  proof (cases r1)
    case (Inl e)
    with a f show ?thesis by simp
  next
    case (Inr st)
    obtain h1 orig1 where "st = (h1, orig1)" by (cases st)
    with Cons.IH [OF nr, where w = w1 and h = h1 and orig = orig1] a f Inr show ?thesis by simp
  qed
qed

lemma original_step_closed:
  "original_step L ch d w u force =
     (if files w (file_path L d u) = None \<or> force then
        (case get_proxy ch d of
           Inl e \<Rightarrow> (w, Inl e)
         | Inr proxy \<Rightarrow>
            (case encoded L ch u proxy of
               Inl e \<Rightarrow> (emit (Get u proxy) w, Inl e)
             | Inr buf \<Rightarrow>
                (case disk ch (file_path L d u) of
                   Written \<Rightarrow>
                     (w\<lparr>files := (files w)(file_path L d u \<mapsto> buf),
                        events := events w @ [Get u proxy, Write (file_path L d u) buf,
                                             Sleep (uniform ch (min_wait d) (max_wait d))]\<rparr>,
                      Inr (fetched_heap L ch u proxy, Some 0))
                 | Open_Denied \<Rightarrow> (emit (Get u proxy) w, Inl PersistError)
                 | Write_Cut n \<Rightarrow>
                     (w\<lparr>files := (files w)(file_path L d u \<mapsto> take n buf),
                        events := events w @
                          [Get u proxy, Write (file_path L d u) (take n buf)]\<rparr>,
                      Inl PersistError))))
      else (w, Inr ([], None)))"
  by (auto simp: original_step_def fetch_original_closed Let_def
      split: sum.splits write_outcome.splits)

lemma imgdl_download_image_closed:
  "imgdl_download_image L ch d w u force =
     (case get_proxy ch d of
        Inl e \<Rightarrow> (w, Inl e)
      | Inr proxy \<Rightarrow>
         (if files w (file_path L d u) = None \<or> force then
            (case encoded L ch u proxy of
               Inl e \<Rightarrow> (emit (Get u proxy) w, Inl e)
             | Inr buf \<Rightarrow>
                (case disk ch (file_path L d u) of
                   Written \<Rightarrow>
                     (w\<lparr>files := (files w)(file_path L d u \<mapsto> buf),
                        events := events w @ [Get u proxy, Write (file_path L d u) buf,
                                             Sleep (uniform ch (min_wait d) (max_wait d))]\<rparr>,
                      Inr (file_path L d u))
                 | Open_Denied \<Rightarrow> (emit (Get u proxy) w, Inl PersistError)
                 | Write_Cut n \<Rightarrow>
                     (w\<lparr>files := (files w)(file_path L d u \<mapsto> take n buf),
                        events := events w @
                          [Get u proxy, Write (file_path L d u) (take n buf)]\<rparr>,
                      Inl PersistError)))
          else (w, Inr (file_path L d u))))"
  by (auto simp: imgdl_download_image_def fetch_original_closed Let_def
      split: sum.splits write_outcome.splits)

lemma original_step_sim:
  assumes "files w (file_path L d u) = files v (file_path L d u)"
  shows "snd (original_step L ch d w u force) = snd (original_step L ch d v u force) \<and>
         (\<forall>x. files w x = files v x \<longrightarrow>
            files (fst (original_step L ch d w u force)) x =
            files (fst (original_step L ch d v u force)) x)"
  using assms
  by (auto simp: original_step_closed emit_def split: sum.splits write_outcome.splits)

lemma original_step_files:
  assumes "q \<noteq> file_path L d u"
  shows "files (fst (original_step L ch d w u force)) q = files w q"
  using assms
  by (auto simp: original_step_closed emit_def split: sum.splits write_outcome.splits)

lemma imgdl_download_image_sim:
  assumes "files w (file_path L d u) = files v (file_path L d u)"
  shows "snd (imgdl_download_image L ch d w u force) =
         snd (imgdl_download_image L ch d v u force) \<and>
         (\<forall>x. files w x = files v x \<longrightarrow>
            files (fst (imgdl_download_image L ch d w u force)) x =
            files (fst (imgdl_download_image L ch d v u force)) x)"
  using assms
  by (auto simp: imgdl_download_image_closed emit_def split: sum.splits write_outcome.splits)

lemma imgdl_download_image_files:
  assumes "q \<noteq> file_path L d u"
  shows "files (fst (imgdl_download_image L ch d w u force)) q = files w q"
  using assms
  by (auto simp: imgdl_download_image_closed emit_def split: sum.splits write_outcome.splits)

lemma download_image_sim:
  assumes "\<And>q. footprint L d u q \<Longrightarrow> files w q = files v q"
  shows "snd (download_image L ch d w u force) = snd (download_image L ch d v u force) \<and>
         (\<forall>x. files w x = files v x \<longrightarrow>
            files (fst (download_image L ch d w u force)) x =
            files (fst (download_image L ch d v u force)) x)"
proof -
  have p: "files w (file_path L d u) = files v (file_path L d u)"
    using assms by (simp add: footprint_def)
  have t: "\<forall>spec \<in> set (thumbs_size d).
             files w (thumb_path L d u (fst spec)) = files v (thumb_path L d u (fst spec))"
    using assms by (simp add: footprint_def)
  obtain w1 r1 where a: "original_step L ch d w u force = (w1, r1)"
    by (cases "original_step L ch d w u force")
  obtain v1 s1 where b: "original_step L ch d v u force = (v1, s1)"
    by (cases "original_step L ch d v u force")
  from original_step_sim [OF p, of ch force] a b have
    eq: "s1 = r1" and pw: "\<forall>x. files w x = files v x \<longrightarrow> files w1 x = files v1 x"
    by simp_all
  show ?thesis
  proof (cases r1)
    case (Inl e)
    with a b eq pw show ?thesis by (simp add: download_image_def)
  next
    case (Inr st)
    obtain h orig where st: "st = (h, orig)" by (cases st)
    have p1: "files w1 (file_path L d u) = files v1 (file_path L d u)" using pw p by simp
    have t1: "\<forall>spec \<in> set (thumbs_size d).
             files w1 (thumb_path L d u (fst spec)) = files v1 (thumb_path L d u (fst spec))"
      using pw t by simp
    note l = thumbs_loop_sim [OF p1 t1, where ch = ch and force = force and h = h and orig = orig]
    obtain w2 r2 where c:
      "thumbs_loop L ch d u force (file_path L d u) (thumbs_size d) w1 h orig = (w2, r2)"
      by (cases "thumbs_loop L ch d u force (file_path L d u) (thumbs_size d) w1 h orig")
    obtain v2 s2 where e:
      "thumbs_loop L ch d u force (file_path L d u) (thumbs_size d) v1 h orig = (v2, s2)"
      by (cases "thumbs_loop L ch d u force (file_path L d u) (thumbs_size d) v1 h orig")
    from l c e have eq2: "s2 = r2" and pw2: "\<forall>x. files w1 x = files v1 x \<longrightarrow> files w2 x = files v2 x"
      by simp_all
    from a b eq Inr st c e eq2 pw pw2 show ?thesis
      by (cases r2) (simp_all add: download_image_def)
  qed
qed

lemma download_image_files:
  assumes "\<not> footprint L d u q"
  shows "files (fst (download_image L ch d w u force)) q = files w q"
proof -
  from assms have ne: "q \<noteq> file_path L d u"
    and nt: "q \<notin> set (map (\<lambda>spec. thumb_path L d u (fst spec)) (thumbs_size d))"
    by (simp_all add: footprint_def)
  obtain w1 r1 where a: "original_step L ch d w u force = (w1, r1)"
    by (cases "original_step L ch d w u force")
  from original_step_files [OF ne, of ch w force] a have f: "files w1 q = files w q" by simp
  show ?thesis
  proof (cases r1)
    case (Inl e)
    with a f show ?thesis by (simp add: download_image_def)
  next
    case (Inr st)
    obtain h orig where st: "st = (h, orig)" by (cases st)
    obtain w2 r2 where c:
      "thumbs_loop L ch d u force (file_path L d u) (thumbs_size d) w1 h orig = (w2, r2)"
      by (cases "thumbs_loop L ch d u force (file_path L d u) (thumbs_size d) w1 h orig")
    from thumbs_loop_files [OF nt, where ch = ch and force = force and p = "file_path L d u"
        and w = w1 and h = h and orig = orig] c have "files w2 q = files w1 q" by simp
    with a f Inr st c show ?thesis by (cases r2) (simp_all add: download_image_def)
  qed
qed

lemma footprint_file_path: "footprint L d u (file_path L d u)"
  by (simp add: footprint_def)

lemma footprint_shared:
  assumes "footprint L d u q" "footprint L d u' q"
  shows "file_path L d u = file_path L d u'"
  using assms
  by (auto simp: footprint_def file_path_def thumb_path_def)

lemma run_tasks_files:
  fixes t :: task
  assumes frame: "\<And>ch w u q. \<not> foot u q \<Longrightarrow> files (fst (t ch w u force)) q = files w q"
    and "\<forall>i \<in> set order. \<not> foot (urls ! i) q"
  shows "files (fst (run_tasks t chs urls force order w)) q = files w q"
  using assms(2)
proof (induction order arbitrary: w)
  case Nil
  then show ?case by simp
next
  case (Cons i rest)
  obtain w1 out where a: "t (chs i) w (urls ! i) force = (w1, out)"
    by (cases "t (chs i) w (urls ! i) force")
  from Cons.prems have "\<not> foot (urls ! i) q" by simp
  from frame [OF this, of "chs i" w] a have f: "files w1 q = files w q" by simp
  from Cons.prems have "\<forall>j \<in> set rest. \<not> foot (urls ! j) q" by simp
  from Cons.IH [OF this, of w1] f have "files (fst (run_tasks t chs urls force rest w1)) q = files w q"
    by simp
  with a show ?case
    by (cases "run_tasks t chs urls force rest w1") simp
qed

lemma run_tasks_independent:
  fixes t :: task
  assumes sim: "\<And>ch w v u. (\<And>q. foot u q \<Longrightarrow> files w q = files v q) \<Longrightarrow>
             snd (t ch w u force) = snd (t ch v u force) \<and>
             (\<forall>x. files w x = files v x \<longrightarrow>
                files (fst (t ch w u force)) x = files (fst (t ch v u force)) x)"
    and frame: "\<And>ch w u q. \<not> foot u q \<Longrightarrow> files (fst (t ch w u force)) q = files w q"
    and disj: "\<And>i j q. i \<in> set order \<Longrightarrow> j \<in> set order \<Longrightarrow> i \<noteq> j \<Longrightarrow>
                 foot (urls ! i) q \<Longrightarrow> \<not> foot (urls ! j) q"
    and d: "distinct order"
    and m: "(i, out) \<in> set (snd (run_tasks t chs urls force order w))"
  shows "out = snd (t (chs i) w (urls ! i) force) \<and>
         (\<forall>q. foot (urls ! i) q \<longrightarrow>
            files (fst (run_tasks t chs urls force order w)) q =
            files (fst (t (chs i) w (urls ! i) force)) q)"
  using disj d m
proof (induction order arbitrary: w)
  case Nil
  then show ?case by simp
next
  case (Cons j rest)
  obtain w1 o1 where a: "t (chs j) w (urls ! j) force = (w1, o1)"
    by (cases "t (chs j) w (urls ! j) force")
  obtain w2 outs where b: "run_tasks t chs urls force rest w1 = (w2, outs)"
    by (cases "run_tasks t chs urls force rest w1")
  have run: "run_tasks t chs urls force (j # rest) w = (w2, (j, o1) # outs)"
    using a b by simp
  have jr: "j \<notin> set rest" and dr: "distinct rest" using Cons.prems(2) by simp_all
  have disj': "\<And>i k q. i \<in> set rest \<Longrightarrow> k \<in> set rest \<Longrightarrow> i \<noteq> k \<Longrightarrow>
                 foot (urls ! i) q \<Longrightarrow> \<not> foot (urls ! k) q"
    using Cons.prems(1) by (meson list.set_intros(2))
  from Cons.prems(3) run have "(i, out) = (j, o1) \<or> (i, out) \<in> set outs" by simp
  then show ?case
  proof
    assume "(i, out) = (j, o1)"
    then have ij: "i = j" and oo: "out = o1" by simp_all
    have "files w2 q = files w1 q" if "foot (urls ! j) q" for q
    proof -
      have "\<forall>k \<in> set rest. \<not> foot (urls ! k) q"
        using Cons.prems(1) [of j _ q] jr that by auto
      from run_tasks_files [of foot t force rest urls q chs w1, OF frame this] b
      show ?thesis by simp
    qed
    with run a ij oo show ?thesis by simp
  next
    assume mo: "(i, out) \<in> set outs"
    then have mi: "(i, out) \<in> set (snd (run_tasks t chs urls force rest w1))" using b by simp
    have ir: "i \<in> set rest"
      using run_tasks_indices [OF b] mo by (metis fst_conv imageI set_map)
    with jr have ne: "i \<noteq> j" by auto
    from Cons.IH [OF disj' dr mi] b have
      o: "out = snd (t (chs i) w1 (urls ! i) force)" and
      f: "\<forall>q. foot (urls ! i) q \<longrightarrow> files w2 q = files (fst (t (chs i) w1 (urls ! i) force)) q"
      by simp_all
    have ag: "files w1 q = files w q" if "foot (urls ! i) q" for q
    proof -
      have "\<not> foot (urls ! j) q" using Cons.prems(1) [of i j q] ir ne that by simp
      from frame [OF this, of "chs j" w] a show ?thesis by simp
    qed
    from sim [of "urls ! i" w1 w "chs i"] ag have
      s1: "snd (t (chs i) w1 (urls ! i) force) = snd (t (chs i) w (urls ! i) force)" and
      s2: "\<forall>x. files w1 x = files w x \<longrightarrow>
             files (fst (t (chs i) w1 (urls ! i) force)) x =
             files (fst (t (chs i) w (urls ! i) force)) x"
      by simp_all
    from o f s1 s2 ag run show ?thesis by simp
  qed
qed

end
